theory Spec2Isabelle
  imports Main "HOL-Library.AList"
begin

section \<open>JavaScript containers used by the library\<close>

text \<open>
  A JavaScript \<^verbatim>\<open>Set\<close> iterates in insertion order and ignores the insertion of a
  member it already has. It is modelled by the list of its members in iteration order:
  \<open>Set_add\<close> is \<^verbatim>\<open>set.add(x)\<close>, \<open>new_Set\<close> is \<^verbatim>\<open>new Set(iterable)\<close>, \<open>Set_size\<close> is
  \<^verbatim>\<open>set.size\<close> and \<open>Array_from\<close> is \<^verbatim>\<open>Array.from(set)\<close>.
\<close>

type_synonym 'a js_set = "'a list"

definition Set_add :: "'a js_set \<Rightarrow> 'a \<Rightarrow> 'a js_set" where
  "Set_add s x = (if x \<in> set s then s else s @ [x])"

definition new_Set :: "'a list \<Rightarrow> 'a js_set" where
  "new_Set xs = foldl Set_add [] xs"

definition Set_size :: "'a js_set \<Rightarrow> nat" where
  "Set_size s = length s"

definition Array_from :: "'a js_set \<Rightarrow> 'a list" where
  "Array_from s = s"

text \<open>
  A JavaScript \<^verbatim>\<open>Map\<close> is modelled by the list of its entries in insertion order:
  \<open>Map_set\<close> is \<^verbatim>\<open>map.set(k, v)\<close> (an existing key keeps its place and takes the new
  value), \<open>Map_has\<close> is \<^verbatim>\<open>map.has(k)\<close>, \<open>Map_size\<close> is \<^verbatim>\<open>map.size\<close>, and
  \<open>map_of\<close> reads \<^verbatim>\<open>map.get(k)\<close>.
\<close>

type_synonym ('k, 'v) js_map = "('k \<times> 'v) list"

definition Map_set :: "('k, 'v) js_map \<Rightarrow> 'k \<Rightarrow> 'v \<Rightarrow> ('k, 'v) js_map" where
  "Map_set m k v = AList.update k v m"

definition Map_has :: "('k, 'v) js_map \<Rightarrow> 'k \<Rightarrow> bool" where
  "Map_has m k = (map_of m k \<noteq> None)"

definition Map_size :: "('k, 'v) js_map \<Rightarrow> nat" where
  "Map_size m = length m"

text \<open>
  \<^verbatim>\<open>array[i]\<close> is \<^verbatim>\<open>undefined\<close> out of range (\<open>None\<close>); \<^verbatim>\<open>array.slice(b, e)\<close> for
  \<open>0 \<le> b\<close> clamps \<open>e\<close> to the length and is empty when \<open>e \<le> b\<close>; \<^verbatim>\<open>array.indexOf(x)\<close>
  is the first index of \<open>x\<close>, or \<open>-1\<close>.
\<close>

definition at_index :: "'a list \<Rightarrow> nat \<Rightarrow> 'a option" where
  "at_index xs i = (if i < length xs then Some (xs ! i) else None)"

definition slice :: "'a list \<Rightarrow> nat \<Rightarrow> nat \<Rightarrow> 'a list" where
  "slice xs b e = take (e - b) (drop b xs)"

fun indexOf :: "'a list \<Rightarrow> 'a \<Rightarrow> int" where
  "indexOf [] x = -1"
| "indexOf (y # ys) x =
     (if y = x then 0 else (let r = indexOf ys x in if r < 0 then -1 else r + 1))"

text \<open>\<^verbatim>\<open>array.map((e, i) => f(e, i))\<close>: the callback also receives the position.\<close>

definition map_indexed :: "('a \<Rightarrow> nat \<Rightarrow> 'b) \<Rightarrow> 'a list \<Rightarrow> 'b list" where
  "map_indexed f xs = map (\<lambda>(i, e). f e i) (enumerate 0 xs)"


section \<open>dist/src/internal/batch.js\<close>

text \<open>
  \<^verbatim>\<open>splitIds(ids, batchSize)\<close>: the \<^verbatim>\<open>for\<close> loop over \<open>i\<close> with step \<open>batchSize\<close>.
  With \<open>batchSize = 0\<close> and a non-empty list the loop never ends, which is the value
  \<open>None\<close>.
\<close>

partial_function (option) splitIds_loop ::
  "'a list \<Rightarrow> nat \<Rightarrow> nat \<Rightarrow> 'a list list \<Rightarrow> 'a list list option" where
  "splitIds_loop ids batchSize i groups =
     (if i < length ids then
        (let e = i + batchSize;
             e' = (if e > length ids then length ids else e)
         in splitIds_loop ids batchSize (i + batchSize) (groups @ [slice ids i e']))
      else Some groups)"

declare splitIds_loop.simps [code]

definition splitIds :: "'a list \<Rightarrow> nat \<Rightarrow> 'a list list option" where
  "splitIds ids batchSize = splitIds_loop ids batchSize 0 []"

text \<open>
  The batch functions call the \<open>requester\<close> supplied by the caller. The model takes the
  array a request resolves to, and records the id lists the requester was called with
  (\<open>requests\<close>, in call order) beside what the function produces (\<open>response\<close>). A
  rejected request ends the operation with that rejection and is outside this model.
\<close>

record ('i, 'a) batched =
  requests :: "'i list list"
  response :: 'a

text \<open>
  \<^verbatim>\<open>getIDMatchedValues\<close>: one request per group, every response element paired with
  the id at its position in the group (\<^verbatim>\<open>idSet[i]\<close>, \<^verbatim>\<open>undefined\<close> past the end of the
  group), the groups' pairs joined in group order.
\<close>

definition getIDMatchedValues ::
  "'i list \<Rightarrow> ('i list \<Rightarrow> 't list) \<Rightarrow> nat \<Rightarrow> ('i, ('t \<times> 'i option) list) batched option" where
  "getIDMatchedValues ids requester batchSize =
     (case splitIds ids batchSize of
        None \<Rightarrow> None
      | Some groups \<Rightarrow>
          Some \<lparr>requests = groups,
                response = concat (map (\<lambda>idSet.
                  map_indexed (\<lambda>e i. (e, at_index idSet i)) (requester idSet)) groups)\<rparr>)"

definition getRawValues ::
  "'i list \<Rightarrow> ('i list \<Rightarrow> 't list) \<Rightarrow> nat \<Rightarrow> ('i, 't list) batched option" where
  "getRawValues ids requester batchSize =
     map_option (\<lambda>r. \<lparr>requests = requests r, response = map fst (response r)\<rparr>)
       (getIDMatchedValues ids requester batchSize)"

definition getBatchedValues ::
  "'i list \<Rightarrow> ('i list \<Rightarrow> 't list) \<Rightarrow> ('t \<Rightarrow> 'i option \<Rightarrow> 'k \<times> 'v) \<Rightarrow> nat
     \<Rightarrow> ('i, ('k, 'v) js_map) batched option" where
  "getBatchedValues ids requester resolver batchSize =
     map_option (\<lambda>r. \<lparr>requests = requests r,
                       response = foldl (\<lambda>m n. (let tuple = resolver (fst n) (snd n)
                                               in Map_set m (fst tuple) (snd tuple)))
                                    [] (response r)\<rparr>)
       (getIDMatchedValues ids requester batchSize)"

text \<open>
  \<^verbatim>\<open>getIteratedValues\<close>: the asynchronous id source is the list of the ids it
  produces. The loop threads the set \<open>idBatch\<close>; \<open>run\<close> collects the requests made and
  the pairs yielded so far.
\<close>

definition process_batch ::
  "('i list \<Rightarrow> 't list) \<Rightarrow> ('t \<Rightarrow> 'i option \<Rightarrow> 'r) \<Rightarrow> 'i js_set \<Rightarrow> ('i, 'r list) batched
     \<Rightarrow> ('i, 'r list) batched" where
  "process_batch requester resolver idBatch run =
     (let idArrays = Array_from idBatch;
          values = map_indexed (\<lambda>e i. resolver e (at_index idArrays i)) (requester idArrays)
      in \<lparr>requests = requests run @ [idArrays], response = response run @ values\<rparr>)"

fun getIteratedValues_loop ::
  "('i list \<Rightarrow> 't list) \<Rightarrow> ('t \<Rightarrow> 'i option \<Rightarrow> 'r) \<Rightarrow> nat \<Rightarrow> 'i list \<Rightarrow> 'i js_set
     \<Rightarrow> ('i, 'r list) batched \<Rightarrow> ('i, 'r list) batched" where
  "getIteratedValues_loop requester resolver batchSize [] idBatch run =
     (if Set_size idBatch > 0 then process_batch requester resolver idBatch run else run)"
| "getIteratedValues_loop requester resolver batchSize (i # ids) idBatch run =
     (let idBatch' = Set_add idBatch i in
      if Set_size idBatch' \<ge> batchSize
      then getIteratedValues_loop requester resolver batchSize ids []
             (process_batch requester resolver idBatch' run)
      else getIteratedValues_loop requester resolver batchSize ids idBatch' run)"

definition getIteratedValues ::
  "'i list \<Rightarrow> ('i list \<Rightarrow> 't list) \<Rightarrow> ('t \<Rightarrow> 'i option \<Rightarrow> 'r) \<Rightarrow> nat \<Rightarrow> ('i, 'r list) batched" where
  "getIteratedValues ids requester resolver batchSize =
     getIteratedValues_loop requester resolver batchSize ids [] \<lparr>requests = [], response = []\<rparr>"


section \<open>dist/src/internal/search.js (resource-api): resolution helpers\<close>

text \<open>
  The namespace \<^verbatim>\<open>impl\<close> of resource-api.js; in the source tree its compiled text is the
  second part of \<^verbatim>\<open>dist/src/internal/search.js\<close>.
\<close>

text \<open>
  The error raised by the helpers: an \<^verbatim>\<open>ESIError\<close> of kind \<^verbatim>\<open>NOT_FOUND_ERROR\<close> with the
  id that was not found.
\<close>

datatype 'i esi_error = NOT_FOUND_ERROR 'i

text \<open>
  \<^verbatim>\<open>filterArrayToMap(resources, ids, resolver)\<close>. The inner \<^verbatim>\<open>for\<close> loop over the
  resources stores the first value whose id is \<open>i\<close> and breaks; the outer loop throws
  as soon as the map has no entry for the id it has just looked for.
\<close>

fun filterArrayToMap_inner ::
  "'t list \<Rightarrow> 'i \<Rightarrow> ('t \<Rightarrow> 'i) \<Rightarrow> ('i, 't) js_map \<Rightarrow> ('i, 't) js_map" where
  "filterArrayToMap_inner [] i resolver m = m"
| "filterArrayToMap_inner (v # resources) i resolver m =
     (if resolver v = i then Map_set m i v
      else filterArrayToMap_inner resources i resolver m)"

fun filterArrayToMap_loop ::
  "'t list \<Rightarrow> 'i list \<Rightarrow> ('t \<Rightarrow> 'i) \<Rightarrow> ('i, 't) js_map \<Rightarrow> 'i esi_error + ('i, 't) js_map" where
  "filterArrayToMap_loop resources [] resolver m = Inr m"
| "filterArrayToMap_loop resources (i # ids) resolver m =
     (let m' = filterArrayToMap_inner resources i resolver m in
      if \<not> Map_has m' i then Inl (NOT_FOUND_ERROR i)
      else filterArrayToMap_loop resources ids resolver m')"

definition filterArrayToMap ::
  "'t list \<Rightarrow> 'i list \<Rightarrow> ('t \<Rightarrow> 'i) \<Rightarrow> 'i esi_error + ('i, 't) js_map" where
  "filterArrayToMap resources ids resolver = filterArrayToMap_loop resources ids resolver []"

text \<open>
  \<^verbatim>\<open>filterIteratedToMap(resources, ids, resolver)\<close>. The asynchronous sequence is the
  list of the elements it would produce; the \<^verbatim>\<open>for await\<close> loop returns the map
  together with the elements it has not consumed, so that the early exit is visible.
  The second loop is the search for the first id the map lacks.
\<close>

fun filterIteratedToMap_scan ::
  "'t list \<Rightarrow> 'i list \<Rightarrow> ('t \<Rightarrow> 'i) \<Rightarrow> ('i, 't) js_map \<Rightarrow> ('i, 't) js_map \<times> 't list" where
  "filterIteratedToMap_scan [] ids resolver m = (m, [])"
| "filterIteratedToMap_scan (e # resources) ids resolver m =
     (let eID = resolver e;
          m' = (if indexOf ids eID \<ge> 0 then Map_set m eID e else m)
      in if Map_size m' = length ids then (m', resources)
         else filterIteratedToMap_scan resources ids resolver m')"

fun filterIteratedToMap_missing :: "'i list \<Rightarrow> ('i, 't) js_map \<Rightarrow> 'i esi_error option" where
  "filterIteratedToMap_missing [] m = None"
| "filterIteratedToMap_missing (i # ids) m =
     (if \<not> Map_has m i then Some (NOT_FOUND_ERROR i) else filterIteratedToMap_missing ids m)"

definition filterIteratedToMap ::
  "'t list \<Rightarrow> 'i list \<Rightarrow> ('t \<Rightarrow> 'i) \<Rightarrow> ('i esi_error + ('i, 't) js_map) \<times> 't list" where
  "filterIteratedToMap resources ids resolver =
     (let (m, rest) = filterIteratedToMap_scan resources ids resolver [] in
      (if Map_size m \<noteq> length ids
       then (case filterIteratedToMap_missing ids m of
               Some err \<Rightarrow> Inl err
             | None \<Rightarrow> Inr m)
       else Inr m,
       rest))"


section \<open>dist/src/internal/search.js (resource-api): SimpleMappedResource\<close>

text \<open>
  The constructor's argument is a \<^verbatim>\<open>Set\<close>, an array or a provider function; the field
  \<^verbatim>\<open>ids_\<close> then holds an array or the provider.
\<close>

datatype 'i ids_argument = IsSet "'i js_set" | IsArray "'i list" | IsProvider "unit \<Rightarrow> 'i list"

datatype 'i ids_member = ArrayOfIds "'i list" | ProviderOfIds "unit \<Rightarrow> 'i list"

fun SimpleMappedResource :: "'i ids_argument \<Rightarrow> 'i ids_member" where
  "SimpleMappedResource (IsSet ids) = ArrayOfIds (Array_from ids)"
| "SimpleMappedResource (IsArray ids) = ArrayOfIds (Array_from (new_Set ids))"
| "SimpleMappedResource (IsProvider ids) = ProviderOfIds ids"

fun arrayIDs :: "'i ids_member \<Rightarrow> 'i list" where
  "arrayIDs (ArrayOfIds a) = a"
| "arrayIDs (ProviderOfIds f) = f ()"

fun SimpleMappedResource_ids :: "'i ids_member \<Rightarrow> 'i js_set" where
  "SimpleMappedResource_ids (ArrayOfIds a) = new_Set a"
| "SimpleMappedResource_ids (ProviderOfIds f) = new_Set (f ())"


section \<open>dist/src/internal/search.js (resource-api): pagination\<close>

text \<open>
  A page loader is a function of the caller; it may answer differently each time, so
  it threads a state \<open>'s\<close>. A page-number loader answers with a bare array
  (\<open>Elements\<close>) or with \<^verbatim>\<open>{ result, maxPages }\<close> (\<open>Paged\<close>, \<open>maxPages\<close> possibly
  \<^verbatim>\<open>undefined\<close>). A rejected load ends the sequence with that rejection and is outside
  this model.

  A generator runs as far as its consumer pulls. A run of the model pulls every
  element until the generator returns (\<open>finished\<close>) or \<open>fuel\<close> pages have been loaded;
  it records the loader calls with their answers (\<open>fetches\<close>) and the elements yielded.
\<close>

datatype 't page_results = Elements "'t list" | Paged "'t list" "nat option"

record ('a, 'p, 't) run =
  fetches :: "('a \<times> 'p) list"
  yielded :: "'t list"
  finished :: bool

definition after_page :: "'a \<times> 'p \<Rightarrow> 't list \<Rightarrow> ('a, 'p, 't) run \<Rightarrow> ('a, 'p, 't) run" where
  "after_page f es r = \<lparr>fetches = f # fetches r, yielded = es @ yielded r, finished = finished r\<rparr>"

definition below_max :: "nat \<Rightarrow> nat option \<Rightarrow> bool" where
  "below_max page maxPages = (case maxPages of None \<Rightarrow> True | Some mp \<Rightarrow> page < mp)"

definition short_page :: "nat option \<Rightarrow> nat \<Rightarrow> bool" where
  "short_page maxPageSize n = (case maxPageSize of None \<Rightarrow> False | Some mps \<Rightarrow> n < mps)"

fun page_elements :: "'t page_results \<Rightarrow> 't list" where
  "page_elements (Elements es) = es"
| "page_elements (Paged es mp) = es"

fun page_hint :: "'t page_results \<Rightarrow> nat option" where
  "page_hint (Elements es) = None"
| "page_hint (Paged es mp) = mp"

fun getPageBasedIterator_loop ::
  "nat \<Rightarrow> (nat \<Rightarrow> 's \<Rightarrow> 't page_results \<times> 's) \<Rightarrow> nat option \<Rightarrow> nat \<Rightarrow> nat option \<Rightarrow> 's
     \<Rightarrow> (nat, 't page_results, 't) run" where
  "getPageBasedIterator_loop 0 pageLoader maxPageSize page maxPages s =
     \<lparr>fetches = [], yielded = [], finished = (\<not> below_max page maxPages)\<rparr>"
| "getPageBasedIterator_loop (Suc fuel) pageLoader maxPageSize page maxPages s =
     (if below_max page maxPages then
        (let (pageResults, s') = pageLoader page s;
             elements = page_elements pageResults;
             maxPages' = (if page_hint pageResults \<noteq> None \<and> maxPages = None
                          then page_hint pageResults else maxPages)
         in if length elements = 0
            then \<lparr>fetches = [(page, pageResults)], yielded = [], finished = True\<rparr>
            else if short_page maxPageSize (length elements)
            then \<lparr>fetches = [(page, pageResults)], yielded = elements, finished = True\<rparr>
            else after_page (page, pageResults) elements
                   (getPageBasedIterator_loop fuel pageLoader maxPageSize (page + 1) maxPages' s'))
      else \<lparr>fetches = [], yielded = [], finished = True\<rparr>)"

definition getPageBasedIterator ::
  "nat \<Rightarrow> (nat \<Rightarrow> 's \<Rightarrow> 't page_results \<times> 's) \<Rightarrow> nat option \<Rightarrow> 's
     \<Rightarrow> (nat, 't page_results, 't) run" where
  "getPageBasedIterator fuel pageLoader maxPageSize s =
     getPageBasedIterator_loop fuel pageLoader maxPageSize 1 None s"

fun getMaxIDIterator_loop ::
  "nat \<Rightarrow> ('c option \<Rightarrow> 's \<Rightarrow> 't list \<times> 's) \<Rightarrow> ('t \<Rightarrow> 'c) \<Rightarrow> nat option \<Rightarrow> 'c option \<Rightarrow> 's
     \<Rightarrow> ('c option, 't list, 't) run" where
  "getMaxIDIterator_loop 0 pageLoader idResolver maxPageSize maxID s =
     \<lparr>fetches = [], yielded = [], finished = False\<rparr>"
| "getMaxIDIterator_loop (Suc fuel) pageLoader idResolver maxPageSize maxID s =
     (let (pageResults, s') = pageLoader maxID s
      in if length pageResults = 0
         then \<lparr>fetches = [(maxID, pageResults)], yielded = [], finished = True\<rparr>
         else if short_page maxPageSize (length pageResults)
         then \<lparr>fetches = [(maxID, pageResults)], yielded = pageResults, finished = True\<rparr>
         else after_page (maxID, pageResults) pageResults
                (getMaxIDIterator_loop fuel pageLoader idResolver maxPageSize
                   (Some (idResolver (pageResults ! (length pageResults - 1)))) s'))"

definition getMaxIDIterator ::
  "nat \<Rightarrow> ('c option \<Rightarrow> 's \<Rightarrow> 't list \<times> 's) \<Rightarrow> ('t \<Rightarrow> 'c) \<Rightarrow> nat option \<Rightarrow> 's
     \<Rightarrow> ('c option, 't list, 't) run" where
  "getMaxIDIterator fuel pageLoader idResolver maxPageSize s =
     getMaxIDIterator_loop fuel pageLoader idResolver maxPageSize None s"


section \<open>Auxiliary notions for the statements\<close>

text \<open>The elements of the examples: objects with the single field \<^verbatim>\<open>id\<close>.\<close>

record element =
  id_field :: nat

text \<open>
  A page on which a streamer stops: it is empty, or the full-page size is known and the
  page has fewer elements.
\<close>

definition stops_on :: "nat option \<Rightarrow> 't list \<Rightarrow> bool" where
  "stops_on maxPageSize es = (es = [] \<or> short_page maxPageSize (length es))"

text \<open>
  The \<^verbatim>\<open>maxPages\<close> hint held after a list of fetches, starting from the hint \<open>mp\<close>: the
  first hint an answer carried, later hints being ignored.
\<close>

fun capture :: "nat option \<Rightarrow> (nat \<times> 't page_results) list \<Rightarrow> nat option" where
  "capture mp [] = mp"
| "capture mp (f # fs) =
     capture (if page_hint (snd f) \<noteq> None \<and> mp = None then page_hint (snd f) else mp) fs"

text \<open>
  Page loaders of the examples: one that answers with the pages of a script in turn,
  whatever it is asked (and with an empty page once the script is used up), and one
  that answers every page number \<open>n\<close> with the one-element page \<open>[n]\<close> and the hint
  \<^verbatim>\<open>maxPages = M\<close>.
\<close>

fun scripted_loader :: "'c \<Rightarrow> 't list list \<Rightarrow> 't list \<times> 't list list" where
  "scripted_loader c [] = ([], [])"
| "scripted_loader c (p # ps) = (p, ps)"

definition hinting_loader :: "nat \<Rightarrow> nat \<Rightarrow> unit \<Rightarrow> nat page_results \<times> unit" where
  "hinting_loader M page s = (Paged [page] (Some M), s)"

text \<open>The list cut into consecutive pieces of \<open>B\<close> elements, the last one possibly shorter.\<close>

function chunks :: "nat \<Rightarrow> 'a list \<Rightarrow> 'a list list" where
  "chunks B xs = (if B = 0 \<or> xs = [] then [] else take B xs # chunks B (drop B xs))"
  by pat_completeness auto
termination
  by (relation "measure (\<lambda>(B, xs). length xs)") auto

declare chunks.simps [simp del]


section \<open>Splitting ids into batches\<close>

lemma splitIds_loop_chunks:
  "0 < B \<Longrightarrow> splitIds_loop ids B i groups = Some (groups @ chunks B (drop i ids))"
proof (induction "length ids - i" arbitrary: i groups rule: less_induct)
  case less
  show ?case
  proof (cases "i < length ids")
    case False
    then show ?thesis
      by (subst splitIds_loop.simps) (simp add: chunks.simps)
  next
    case True
    have m: "length ids - (i + B) < length ids - i" using True less.prems by arith
    have sl: "slice ids i (if i + B > length ids then length ids else i + B) = take B (drop i ids)"
      using True by (auto simp: slice_def)
    have dd: "drop B (drop i ids) = drop (i + B) ids" by (simp add: add.commute)
    show ?thesis
      apply (subst splitIds_loop.simps)
      apply (subst chunks.simps)
      using True less.prems less.hyps[OF m less.prems] sl dd
      apply (simp add: Let_def)
      done
  qed
qed

lemma concat_chunks: "0 < B \<Longrightarrow> concat (chunks B xs) = xs"
  by (induction B xs rule: chunks.induct) (subst chunks.simps, auto)

lemma length_chunks: "0 < B \<Longrightarrow> length (chunks B xs) = (length xs + B - 1) div B"
proof (induction B xs rule: chunks.induct)
  case (1 B xs)
  show ?case
  proof (cases "xs = []")
    case True
    then show ?thesis using 1 by (subst chunks.simps) simp
  next
    case False
    then have L: "0 < length xs" by simp
    have ih: "length (chunks B (drop B xs)) = (length xs - B + B - 1) div B"
      using 1 False by simp
    have ar: "Suc ((length xs - B + B - 1) div B) = (length xs + B - 1) div B"
    proof (cases "B \<le> length xs")
      case True
      then have "length xs + B - 1 = (length xs - B + B - 1) + B" using L by simp
      then have "(length xs + B - 1) div B = (length xs - B + B - 1) div B + 1"
        using 1(2) by (simp only: div_add_self2) 
      then show ?thesis by simp
    next
      case False
      then have e: "length xs + B - 1 = (length xs - 1) + B" and l: "length xs - 1 < B"
        using L by arith+
      have "(length xs - 1 + B) div B = 1" using div_add_self2[of B "length xs - 1"] l by simp
      then have "(length xs + B - 1) div B = 1" by (simp only: e)
      with False show ?thesis by simp
    qed
    show ?thesis using False 1(2) ih ar by (subst chunks.simps) simp
  qed
qed

lemma nth_chunks:
  "0 < B \<Longrightarrow> k < length (chunks B xs) \<Longrightarrow> chunks B xs ! k = take B (drop (k * B) xs)"
proof (induction B xs arbitrary: k rule: chunks.induct)
  case (1 B xs)
  from 1(3) have ne: "xs \<noteq> []" by (subst (asm) chunks.simps) (auto split: if_splits)
  have unf: "chunks B xs = take B xs # chunks B (drop B xs)"
    using ne 1(2) by (subst chunks.simps) simp
  show ?case
  proof (cases k)
    case 0
    then show ?thesis using unf by simp
  next
    case (Suc j)
    then have "j < length (chunks B (drop B xs))" using 1(3) unf by simp
    then have "chunks B (drop B xs) ! j = take B (drop (j * B) (drop B xs))"
      using 1(1)[of j] ne 1(2) by simp
    then show ?thesis using Suc unf by (simp add: add.commute)
  qed
qed


lemma ceil_div_cases:
  "0 < B \<Longrightarrow> (L + B - 1) div B = (if L mod B = 0 then L div B else Suc (L div B))" for L B :: nat
proof -
  assume B: "0 < B"
  have L: "L = L div B * B + L mod B" by simp
  show ?thesis
  proof (cases "L mod B = 0")
    case True
    then have "L + B - 1 = (B - 1) + L div B * B" using L B by arith
    then have "(L + B - 1) div B = (B - 1) div B + L div B"
      using B by (simp only: div_mult_self1) 
    then show ?thesis using True B by simp
  next
    case False
    then have "L + B - 1 = (L mod B - 1) + Suc (L div B) * B" using L B
      by (metis (no_types, lifting) Nat.add_diff_assoc2 One_nat_def Suc_leI add.assoc add.commute bot_nat_0.not_eq_extremum mult_Suc)
    then have "(L + B - 1) div B = (L mod B - 1) div B + Suc (L div B)"
      using B by (simp only: div_mult_self1) 
    moreover have "L mod B - 1 < B" using B by (simp add: less_imp_diff_less)
    ultimately show ?thesis using False by simp
  qed
qed

lemma group_size:
  assumes B: "0 < B" and k: "k < (L + B - 1) div B"
  shows "min B (L - k * B) =
         (if Suc k < (L + B - 1) div B then B else if L mod B = 0 then B else L mod B)"
proof -
  have L: "L = L div B * B + L mod B" by simp
  have r: "L mod B < B" using B by simp
  show ?thesis
  proof (cases "L mod B = 0")
    case True
    then have n: "(L + B - 1) div B = L div B" using ceil_div_cases[OF B, of L] by simp
    then have "Suc k \<le> L div B" using k by simp
    then have "Suc k * B \<le> L div B * B" by (rule mult_le_mono1)
    then have "k * B + B \<le> L div B * B" by simp
    also have "L div B * B \<le> L" by simp
    finally have "k * B + B \<le> L" .
    then show ?thesis using True by simp
  next
    case False
    then have n: "(L + B - 1) div B = Suc (L div B)" using ceil_div_cases[OF B, of L] by simp
    show ?thesis
    proof (cases "Suc k < Suc (L div B)")
      case True
      then have "Suc k \<le> L div B" by simp
      then have "Suc k * B \<le> L div B * B" by (rule mult_le_mono1)
      then have "k * B + B \<le> L div B * B" by simp
      also have "L div B * B \<le> L" by simp
      finally have "k * B + B \<le> L" .
      then show ?thesis using True n by simp
    next
      case F: False
      then have "k = L div B" using k n by simp
      then have "L - k * B = L mod B" using L by (metis add_diff_cancel_left')
      then show ?thesis using F n r False by simp
    qed
  qed
qed


text \<open>
  Claim C1. For every id list of length \<open>L\<close> and every batch size \<open>B > 0\<close>, \<^verbatim>\<open>splitIds\<close>
  returns \<open>\<lceil>L / B\<rceil>\<close> groups, the \<open>k\<close>-th group being the \<open>B\<close> ids from position \<open>k * B\<close>
  on (consecutive, in input order); every group has exactly \<open>B\<close> ids except possibly the
  last, which has \<open>L mod B\<close> ids, or \<open>B\<close> when \<open>L mod B = 0\<close>; and the groups concatenated
  in order are the original list.
\<close>

theorem splitIds_partition:
  assumes "0 < B"
  shows "\<exists>groups. splitIds ids B = Some groups
     \<and> length groups = (length ids + B - 1) div B
     \<and> concat groups = ids
     \<and> (\<forall>k<length groups. groups ! k = take B (drop (k * B) ids))
     \<and> (\<forall>k<length groups. length (groups ! k) =
           (if Suc k < length groups then B
            else if length ids mod B = 0 then B else length ids mod B))"
proof -
  let ?g = "chunks B ids"
  have s: "splitIds ids B = Some ?g"
    using splitIds_loop_chunks[OF assms, of ids 0 "[]"] by (simp add: splitIds_def)
  have n: "length ?g = (length ids + B - 1) div B" by (rule length_chunks[OF assms])
  have c: "concat ?g = ids" by (rule concat_chunks[OF assms])
  have e: "\<forall>k<length ?g. ?g ! k = take B (drop (k * B) ids)"
    using nth_chunks[OF assms] by blast
  have z: "\<forall>k<length ?g. length (?g ! k) =
           (if Suc k < length ?g then B
            else if length ids mod B = 0 then B else length ids mod B)"
  proof (intro allI impI)
    fix k assume k: "k < length ?g"
    then have "length (?g ! k) = min B (length ids - k * B)"
      using e by (simp add: min.commute)
    also have "\<dots> = (if Suc k < (length ids + B - 1) div B then B
            else if length ids mod B = 0 then B else length ids mod B)"
      using group_size[OF assms, of k "length ids"] k n by simp
    finally show "length (?g ! k) =
           (if Suc k < length ?g then B
            else if length ids mod B = 0 then B else length ids mod B)"
      using n by simp
  qed
  show ?thesis using s n c e z by blast
qed

theorem splitIds_partition_witness:
  "0 < (2::nat) \<and> (\<exists>groups. splitIds [1, 2, 3, 4, 5 :: nat] 2 = Some groups
      \<and> length groups = 3 \<and> concat groups = [1, 2, 3, 4, 5]
      \<and> length (groups ! 2) = 1)"
  using splitIds_partition [of 2 "[1, 2, 3, 4, 5 :: nat]"] by auto

section \<open>The streaming batch resolver and the size of a request\<close>

text \<open>
  Claim C4. Fed the ids \<open>1, 2, 1, 3\<close> with batch size \<open>2\<close>, \<^verbatim>\<open>getIteratedValues\<close> calls
  the requester exactly twice, first with \<open>[1, 2]\<close> and then with \<open>[1, 3]\<close>, whatever the
  requester answers: the id \<open>1\<close> that comes back after the first batch was sent is
  requested again.
\<close>

theorem getIteratedValues_dedup_window:
  "requests (getIteratedValues [1, 2, 1, 3 :: nat] requester resolver 2) = [[1, 2], [1, 3]]"
  by (simp add: getIteratedValues_def Set_add_def Set_size_def process_batch_def Array_from_def Let_def)

lemma Set_add_size: "Set_size (Set_add s x) \<le> Suc (Set_size s)"
  by (simp add: Set_add_def Set_size_def)

lemma requests_process_batch:
  "requests (process_batch requester resolver idBatch run) = requests run @ [idBatch]"
  by (simp add: process_batch_def Array_from_def Let_def)

lemma getIteratedValues_loop_bound:
  "0 < B \<Longrightarrow> Set_size idBatch < B \<Longrightarrow> \<forall>g\<in>set (requests run). length g \<le> B \<Longrightarrow>
   \<forall>g\<in>set (requests (getIteratedValues_loop requester resolver B ids idBatch run)). length g \<le> B"
proof (induction ids arbitrary: idBatch run)
  case Nil
  then show ?case by (auto simp: requests_process_batch Set_size_def)
next
  case (Cons i ids)
  let ?b = "Set_add idBatch i"
  have le: "Set_size ?b \<le> B" using Set_add_size[of idBatch i] Cons.prems(2) by simp
  show ?case
  proof (cases "Set_size ?b \<ge> B")
    case True
    have "\<forall>g\<in>set (requests (process_batch requester resolver ?b run)). length g \<le> B"
      using Cons.prems(3) le by (auto simp: requests_process_batch Set_size_def)
    then have "\<forall>g\<in>set (requests (getIteratedValues_loop requester resolver B ids []
                 (process_batch requester resolver ?b run))). length g \<le> B"
      using Cons.IH[of "[]"] Cons.prems(1) by (simp add: Set_size_def)
    then show ?thesis using True by (simp add: Let_def)
  next
    case False
    then have "Set_size ?b < B" by simp
    then have "\<forall>g\<in>set (requests (getIteratedValues_loop requester resolver B ids ?b run)). length g \<le> B"
      using Cons.IH[of ?b run] Cons.prems by simp
    then show ?thesis using False by (simp add: Let_def)
  qed
qed

lemma splitIds_chunks: "0 < B \<Longrightarrow> splitIds ids B = Some (chunks B ids)"
  using splitIds_loop_chunks[of B ids 0 "[]"] by (simp add: splitIds_def)

lemma length_chunk_le: "0 < B \<Longrightarrow> g \<in> set (chunks B ids) \<Longrightarrow> length g \<le> B"
proof -
  assume B: "0 < B" and g: "g \<in> set (chunks B ids)"
  then obtain k where k: "k < length (chunks B ids)" and gk: "g = chunks B ids ! k"
    by (auto simp: in_set_conv_nth)
  have "g = take B (drop (k * B) ids)" using nth_chunks[OF B k] gk by simp
  then show ?thesis by simp
qed

text \<open>
  Claim C5. With a batch size \<open>B \<ge> 1\<close>, every id list handed to the requester has at
  most \<open>B\<close> ids: on the splitting path (\<^verbatim>\<open>getIDMatchedValues\<close>, \<^verbatim>\<open>getRawValues\<close>,
  \<^verbatim>\<open>getBatchedValues\<close>), which returns, and on the streaming path
  (\<^verbatim>\<open>getIteratedValues\<close>).
\<close>

theorem request_size_bound:
  assumes "0 < B"
  shows "(\<exists>r. getIDMatchedValues ids requester B = Some r \<and> (\<forall>g\<in>set (requests r). length g \<le> B))
       \<and> (\<exists>r. getRawValues ids requester B = Some r \<and> (\<forall>g\<in>set (requests r). length g \<le> B))
       \<and> (\<exists>r. getBatchedValues ids requester resolver B = Some r
              \<and> (\<forall>g\<in>set (requests r). length g \<le> B))
       \<and> (\<forall>g\<in>set (requests (getIteratedValues ids requester resolver' B)). length g \<le> B)"
proof -
  have s: "splitIds ids B = Some (chunks B ids)" by (rule splitIds_chunks[OF assms])
  have c: "\<forall>g\<in>set (chunks B ids). length g \<le> B" using length_chunk_le[OF assms] by blast
  have 1: "\<exists>r. getIDMatchedValues ids requester B = Some r \<and> (\<forall>g\<in>set (requests r). length g \<le> B)"
    using s c by (simp add: getIDMatchedValues_def)
  have 2: "\<exists>r. getRawValues ids requester B = Some r \<and> (\<forall>g\<in>set (requests r). length g \<le> B)"
    using s c by (simp add: getRawValues_def getIDMatchedValues_def)
  have 3: "\<exists>r. getBatchedValues ids requester resolver B = Some r
              \<and> (\<forall>g\<in>set (requests r). length g \<le> B)"
    using s c by (simp add: getBatchedValues_def getIDMatchedValues_def)
  have 4: "\<forall>g\<in>set (requests (getIteratedValues ids requester resolver' B)). length g \<le> B"
    unfolding getIteratedValues_def
    using getIteratedValues_loop_bound[OF assms, of "[]" "\<lparr>requests = [], response = []\<rparr>"]
    using assms by (simp add: Set_size_def)
  show ?thesis using 1 2 3 4 by blast
qed

theorem request_size_bound_witness:
  "0 < (2::nat)
   \<and> (\<exists>r. getIDMatchedValues [1, 2, 3 :: nat] (\<lambda>g. g) 2 = Some r
          \<and> requests r = [[1, 2], [3]] \<and> (\<forall>g\<in>set (requests r). length g \<le> 2))
   \<and> requests (getIteratedValues [1, 2, 3 :: nat] (\<lambda>g. g) (\<lambda>e i. (i, e)) 2) = [[1, 2], [3]]
   \<and> (\<exists>rs. requests (getIteratedValues [1, 2, 3 :: nat] (\<lambda>g. g) (\<lambda>e i. (i, e)) 2) = rs
          \<and> (\<forall>g\<in>set rs. length g \<le> 2))"
proof -
  have a: "splitIds [1, 2, 3 :: nat] 2 = Some [[1, 2], [3]]"
    by (simp add: splitIds_def splitIds_loop.simps slice_def)
  have b: "requests (getIteratedValues [1, 2, 3 :: nat] (\<lambda>g. g) (\<lambda>e i. (i, e)) 2) = [[1, 2], [3]]"
    by (simp add: getIteratedValues_def Set_add_def Set_size_def process_batch_def Array_from_def Let_def)
  show ?thesis
    using request_size_bound [of 2 "[1, 2, 3 :: nat]" "\<lambda>g. g" "\<lambda>e i. (i, e)" "\<lambda>e i. (i, e)"] a b
    by (simp add: getIDMatchedValues_def)
qed

section \<open>Pairing ids and values\<close>

lemma map_indexed_nth:
  "map_indexed f xs = map (\<lambda>k. f (xs ! k) k) [0..<length xs]"
  by (rule nth_equalityI) (simp_all add: map_indexed_def nth_enumerate_eq)

lemma map_indexed_echo:
  "map_indexed (\<lambda>e i. (e, at_index xs i)) xs = map (\<lambda>x. (x, Some x)) xs"
  by (rule nth_equalityI) (simp_all add: map_indexed_nth at_index_def)

lemma concat_map_echo:
  "concat (map (\<lambda>idSet. map_indexed (\<lambda>e i. (e, at_index idSet i)) idSet) groups)
     = map (\<lambda>x. (x, Some x)) (concat groups)"
  by (induction groups) (simp_all add: map_indexed_echo)

lemma map_of_Map_set: "map_of (Map_set m k v) = (map_of m)(k \<mapsto> v)"
  by (simp add: Map_set_def update_conv')

lemma distinct_Map_set: "distinct (map fst m) \<Longrightarrow> distinct (map fst (Map_set m k v))"
  by (simp add: Map_set_def distinct_update)

lemma keys_Map_set: "fst ` set (Map_set m k v) = insert k (fst ` set m)"
  using dom_update[of k v m] by (simp add: Map_set_def)

lemma distinct_fold_Map_set:
  "distinct (map fst m) \<Longrightarrow> distinct (map fst (foldl (\<lambda>m n. Map_set m (f n) (g n)) m ps))"
  by (induction ps arbitrary: m) (simp_all add: distinct_Map_set)

lemma fold_echo_map_of:
  "map_of (foldl (\<lambda>m n. Map_set m (snd n) (fst n)) m (map (\<lambda>x. (x, Some x)) xs)) k
     = (case k of Some x \<Rightarrow> if x \<in> set xs then Some x else map_of m k | None \<Rightarrow> map_of m k)"
proof (induction xs arbitrary: m)
  case Nil
  then show ?case by (simp split: option.splits)
next
  case (Cons x xs)
  show ?case
    by (simp add: Cons.IH map_of_Map_set split: option.splits)
qed

text \<open>
  Claim C8. For every id list and every batch size \<open>B \<ge> 1\<close>, with a requester that
  answers each request with the requested ids themselves, in order, and a resolver
  that pairs the matched id with the element, \<^verbatim>\<open>getBatchedValues\<close> returns a map in
  which every input id is bound to itself and whose keys are exactly the input ids
  without duplicates. A key \<open>Some i\<close> is the id \<open>i\<close>; \<open>None\<close> would be the key
  \<^verbatim>\<open>undefined\<close> of an element that has no id at its position.
\<close>

theorem getBatchedValues_echo:
  assumes "0 < B"
  shows "\<exists>r. getBatchedValues ids (\<lambda>idSet. idSet) (\<lambda>e i. (i, e)) B = Some r
           \<and> (\<forall>i\<in>set ids. map_of (response r) (Some i) = Some i)
           \<and> fst ` set (response r) = Some ` set ids
           \<and> distinct (map fst (response r))"
proof -
  let ?m = "foldl (\<lambda>m n. Map_set m (snd n) (fst n)) [] (map (\<lambda>x. (x, Some x)) ids)"
  have s: "splitIds ids B = Some (chunks B ids)" by (rule splitIds_chunks[OF assms])
  have g: "getBatchedValues ids (\<lambda>idSet. idSet) (\<lambda>e i. (i, e)) B
             = Some \<lparr>requests = chunks B ids, response = ?m\<rparr>"
    using s concat_chunks[OF assms, of ids]
    by (simp add: getBatchedValues_def getIDMatchedValues_def concat_map_echo Let_def)
  have m: "\<And>k. map_of ?m k = (case k of Some x \<Rightarrow> if x \<in> set ids then Some x else None | None \<Rightarrow> None)"
    by (simp add: fold_echo_map_of split: option.splits)
  have a: "\<forall>i\<in>set ids. map_of ?m (Some i) = Some i" by (simp add: m)
  have "dom (map_of ?m) = Some ` set ids"
    by (auto simp: m dom_def split: option.splits if_splits)
  then have b: "fst ` set ?m = Some ` set ids" by (simp add: dom_map_of_conv_image_fst)
  have d: "distinct (map fst ?m)" by (rule distinct_fold_Map_set) simp
  show ?thesis using g a b d by simp
qed


theorem getBatchedValues_echo_witness:
  "0 < (2::nat)
   \<and> (\<exists>r. getBatchedValues [3, 1, 3 :: nat] (\<lambda>idSet. idSet) (\<lambda>e i. (i, e)) 2 = Some r
          \<and> (\<forall>i\<in>set [3, 1, 3]. map_of (response r) (Some i) = Some i)
          \<and> fst ` set (response r) = Some ` set [3, 1, 3 :: nat]
          \<and> distinct (map fst (response r)))"
  using getBatchedValues_echo [of 2 "[3, 1, 3 :: nat]"] by simp

lemma echo_example:
  "getBatchedValues [3, 1, 3 :: nat] (\<lambda>idSet. idSet) (\<lambda>e i. (i, e)) 2
     = Some \<lparr>requests = [[3, 1], [3]], response = [(Some 3, 3), (Some 1, 1)]\<rparr>"
  by (simp add: getBatchedValues_def getIDMatchedValues_def splitIds_def splitIds_loop.simps
        slice_def map_indexed_def at_index_def Map_set_def Let_def)

section \<open>The ids of a mapped resource\<close>

lemma new_Set_snoc: "new_Set (xs @ [x]) = Set_add (new_Set xs) x"
  by (simp add: new_Set_def)

lemma set_new_Set: "set (new_Set xs) = set xs"
  by (induction xs rule: rev_induct) (auto simp: new_Set_snoc Set_add_def new_Set_def)

lemma distinct_new_Set: "distinct (new_Set xs)"
  by (induction xs rule: rev_induct) (auto simp: new_Set_snoc Set_add_def new_Set_def)

lemma new_Set_first_occurrences:
  "new_Set xs = map ((!) xs) (filter (\<lambda>i. xs ! i \<notin> set (take i xs)) [0..<length xs])"
proof (induction xs rule: rev_induct)
  case Nil
  then show ?case by (simp add: new_Set_def)
next
  case (snoc x xs)
  let ?P = "\<lambda>ys i. ys ! i \<notin> set (take i ys)"
  have f: "filter (?P (xs @ [x])) [0..<length xs] = filter (?P xs) [0..<length xs]"
    by (rule filter_cong) (simp_all add: nth_append)
  have m: "map ((!) (xs @ [x])) (filter (?P xs) [0..<length xs])
             = map ((!) xs) (filter (?P xs) [0..<length xs])"
    by (rule map_cong) (simp_all add: nth_append)
  have "filter (?P (xs @ [x])) [0..<length (xs @ [x])]
          = filter (?P (xs @ [x])) [0..<length xs] @ (if x \<in> set xs then [] else [length xs])"
    by simp
  then have "filter (?P (xs @ [x])) [0..<length (xs @ [x])]
          = filter (?P xs) [0..<length xs] @ (if x \<in> set xs then [] else [length xs])"
    by (simp only: f)
  then have "map ((!) (xs @ [x])) (filter (?P (xs @ [x])) [0..<length (xs @ [x])])
          = map ((!) (xs @ [x])) (filter (?P xs) [0..<length xs])
              @ (if x \<in> set xs then [] else [x])"
    by simp
  then have "map ((!) (xs @ [x])) (filter (?P (xs @ [x])) [0..<length (xs @ [x])])
          = new_Set xs @ (if x \<in> set xs then [] else [x])"
    by (simp only: m snoc.IH [symmetric])
  moreover have "new_Set (xs @ [x]) = new_Set xs @ (if x \<in> set xs then [] else [x])"
    by (simp add: new_Set_snoc Set_add_def set_new_Set)
  ultimately show ?case by simp
qed

lemma new_Set_distinct: "distinct xs \<Longrightarrow> new_Set xs = xs"
  by (induction xs rule: rev_induct) (simp_all add: new_Set_snoc Set_add_def set_new_Set new_Set_def)

text \<open>
  Claim C10. Built from an array, \<^verbatim>\<open>arrayIDs()\<close> is the array with every element
  that already occurs at an earlier position dropped (the distinct ids, in the order
  of their first occurrences), and \<^verbatim>\<open>ids()\<close> is a set with exactly those ids. Built
  from a \<^verbatim>\<open>Set\<close>, \<^verbatim>\<open>arrayIDs()\<close> is the set's elements in its iteration order.
\<close>

theorem SimpleMappedResource_ids_dedup:
  "arrayIDs (SimpleMappedResource (IsArray xs))
     = map ((!) xs) (filter (\<lambda>i. xs ! i \<notin> set (take i xs)) [0..<length xs])
   \<and> distinct (arrayIDs (SimpleMappedResource (IsArray xs)))
   \<and> set (arrayIDs (SimpleMappedResource (IsArray xs))) = set xs
   \<and> SimpleMappedResource_ids (SimpleMappedResource (IsArray xs))
       = arrayIDs (SimpleMappedResource (IsArray xs))
   \<and> set (SimpleMappedResource_ids (SimpleMappedResource (IsArray xs))) = set xs
   \<and> arrayIDs (SimpleMappedResource (IsSet s)) = Array_from s"
proof -
  have a: "arrayIDs (SimpleMappedResource (IsArray xs)) = new_Set xs"
    by (simp add: Array_from_def)
  have i: "SimpleMappedResource_ids (SimpleMappedResource (IsArray xs)) = new_Set xs"
    by (simp add: Array_from_def new_Set_distinct distinct_new_Set)
  have s: "arrayIDs (SimpleMappedResource (IsSet s)) = Array_from s"
    by simp
  show ?thesis
    unfolding a i s
    using new_Set_first_occurrences[of xs] set_new_Set[of xs] distinct_new_Set[of xs]
    by blast
qed

theorem SimpleMappedResource_ids_dedup_witness:
  "arrayIDs (SimpleMappedResource (IsArray [3, 1, 3, 2, 1 :: nat])) = [3, 1, 2]
   \<and> SimpleMappedResource_ids (SimpleMappedResource (IsArray [3, 1, 3, 2, 1 :: nat])) = [3, 1, 2]
   \<and> arrayIDs (SimpleMappedResource (IsSet [2, 7, 1 :: nat])) = [2, 7, 1]"
  using SimpleMappedResource_ids_dedup [of "[3, 1, 3, 2, 1 :: nat]" "[2, 7, 1 :: nat]"]
  by (simp add: new_Set_def Set_add_def Array_from_def)

section \<open>Resolving ids against an array\<close>

lemma Map_has_Map_set: "Map_has (Map_set m k v) k' = (k' = k \<or> Map_has m k')"
  by (auto simp: Map_has_def map_of_Map_set)

lemma filterArrayToMap_inner_find:
  "filterArrayToMap_inner resources i resolver m =
     (case find (\<lambda>v. resolver v = i) resources of None \<Rightarrow> m | Some v \<Rightarrow> Map_set m i v)"
  by (induction resources) simp_all

text \<open>The invariant of the outer loop: the ids looked for so far are bound to their first matches.\<close>

lemma filterArrayToMap_loop_found:
  "\<forall>i\<in>set ids. find (\<lambda>v. resolver v = i) resources \<noteq> None \<Longrightarrow>
   \<exists>m'. filterArrayToMap_loop resources ids resolver m = Inr m'
      \<and> fst ` set m' = fst ` set m \<union> set ids
      \<and> (\<forall>k. map_of m' k = (if k \<in> set ids then find (\<lambda>v. resolver v = k) resources
                               else map_of m k))"
proof (induction ids arbitrary: m)
  case Nil
  then show ?case by simp
next
  case (Cons i ids)
  from Cons.prems obtain v where v: "find (\<lambda>v. resolver v = i) resources = Some v" by auto
  let ?m = "Map_set m i v"
  have inner: "filterArrayToMap_inner resources i resolver m = ?m"
    by (simp add: filterArrayToMap_inner_find v)
  from Cons.prems have "\<forall>i\<in>set ids. find (\<lambda>v. resolver v = i) resources \<noteq> None" by simp
  from Cons.IH[OF this, of ?m] obtain m' where
    r: "filterArrayToMap_loop resources ids resolver ?m = Inr m'"
    and k: "fst ` set m' = fst ` set ?m \<union> set ids"
    and b: "\<forall>k. map_of m' k = (if k \<in> set ids then find (\<lambda>v. resolver v = k) resources
                               else map_of ?m k)"
    by blast
  have 1: "filterArrayToMap_loop resources (i # ids) resolver m = Inr m'"
    using r by (simp add: inner Map_has_Map_set)
  have 2: "fst ` set m' = fst ` set m \<union> set (i # ids)"
    using k by (simp add: keys_Map_set)
  have 3: "\<forall>k. map_of m' k = (if k \<in> set (i # ids) then find (\<lambda>v. resolver v = k) resources
                               else map_of m k)"
    using b v by (simp add: map_of_Map_set)
  show ?case using 1 2 3 by blast
qed

lemma filterArrayToMap_loop_missing:
  "\<forall>j\<in>set pre. find (\<lambda>v. resolver v = j) resources \<noteq> None \<Longrightarrow>
   find (\<lambda>v. resolver v = i) resources = None \<Longrightarrow> \<not> Map_has m i \<Longrightarrow>
   filterArrayToMap_loop resources (pre @ i # post) resolver m = Inl (NOT_FOUND_ERROR i)"
proof (induction pre arbitrary: m)
  case Nil
  then show ?case by (simp add: filterArrayToMap_inner_find)
next
  case (Cons j pre)
  from Cons.prems(1) obtain v where v: "find (\<lambda>v. resolver v = j) resources = Some v" by auto
  have ne: "i \<noteq> j" using v Cons.prems(2) by auto
  have "filterArrayToMap_loop resources (pre @ i # post) resolver (Map_set m j v)
          = Inl (NOT_FOUND_ERROR i)"
    using Cons.IH[of "Map_set m j v"] Cons.prems ne by (simp add: Map_has_Map_set)
  then show ?case by (simp add: filterArrayToMap_inner_find v Map_has_Map_set)
qed


lemma filterArrayToMap_found:
  "\<forall>i\<in>set ids. find (\<lambda>v. resolver v = i) resources \<noteq> None \<Longrightarrow>
   \<exists>m. filterArrayToMap resources ids resolver = Inr m
      \<and> fst ` set m = set ids
      \<and> (\<forall>k. map_of m k = (if k \<in> set ids then find (\<lambda>v. resolver v = k) resources
                              else None))"
  using filterArrayToMap_loop_found[of ids resolver resources "[]"]
  by (auto simp: filterArrayToMap_def)

lemma find_resolver_None:
  "(find (\<lambda>v. resolver v = i) resources = None) = (i \<notin> resolver ` set resources)"
  by (auto simp: find_None_iff)

text \<open>
  Claim C6. \<^verbatim>\<open>filterArrayToMap(elements, ids, resolver)\<close>: when every requested id has
  a matching element, the result is a map whose keys are exactly the requested ids,
  each bound to the first element of the array whose resolver value is that id. When
  the ids split into ids that all have a match, an id \<open>i\<close> that has none, and any
  further ids, the call fails with NotFound carrying \<open>i\<close>, whatever the further ids
  are. In particular \<^verbatim>\<open>filterArrayToMap([{id:1},{id:2},{id:3}], [1,3], e => e.id)\<close> is
  \<^verbatim>\<open>{1: {id:1}, 3: {id:3}}\<close>, and with the ids \<open>[1, 4]\<close> the call fails with NotFound(4).
\<close>

theorem filterArrayToMap_resolution:
  "(set ids \<subseteq> resolver ` set resources \<longrightarrow>
      (\<exists>m. filterArrayToMap resources ids resolver = Inr m
         \<and> fst ` set m = set ids
         \<and> (\<forall>i\<in>set ids. map_of m i = find (\<lambda>v. resolver v = i) resources
                \<and> map_of m i \<noteq> None)))
   \<and> (\<forall>pre i post. ids = pre @ i # post \<and> set pre \<subseteq> resolver ` set resources
          \<and> i \<notin> resolver ` set resources \<longrightarrow>
        filterArrayToMap resources ids resolver = Inl (NOT_FOUND_ERROR i)
        \<and> (\<forall>others. filterArrayToMap resources (pre @ i # others) resolver
               = Inl (NOT_FOUND_ERROR i)))
   \<and> filterArrayToMap [\<lparr>id_field = 1\<rparr>, \<lparr>id_field = 2\<rparr>, \<lparr>id_field = 3\<rparr>] [1, 3] id_field
       = Inr [(1, \<lparr>id_field = 1\<rparr>), (3, \<lparr>id_field = 3\<rparr>)]
   \<and> filterArrayToMap [\<lparr>id_field = 1\<rparr>, \<lparr>id_field = 2\<rparr>, \<lparr>id_field = 3\<rparr>] [1, 4] id_field
       = Inl (NOT_FOUND_ERROR 4)"
proof -
  have A: "set ids \<subseteq> resolver ` set resources \<longrightarrow>
      (\<exists>m. filterArrayToMap resources ids resolver = Inr m
         \<and> fst ` set m = set ids
         \<and> (\<forall>i\<in>set ids. map_of m i = find (\<lambda>v. resolver v = i) resources
                \<and> map_of m i \<noteq> None))"
  proof
    assume sub: "set ids \<subseteq> resolver ` set resources"
    then have all: "\<forall>i\<in>set ids. find (\<lambda>v. resolver v = i) resources \<noteq> None"
      by (auto simp: find_resolver_None)
    from filterArrayToMap_found[OF all] obtain m where
      r: "filterArrayToMap resources ids resolver = Inr m"
      and k: "fst ` set m = set ids"
      and b: "\<forall>k. map_of m k = (if k \<in> set ids then find (\<lambda>v. resolver v = k) resources
                               else None)"
      by blast
    have "\<forall>i\<in>set ids. map_of m i = find (\<lambda>v. resolver v = i) resources \<and> map_of m i \<noteq> None"
      using b all by simp
    then show "\<exists>m. filterArrayToMap resources ids resolver = Inr m
         \<and> fst ` set m = set ids
         \<and> (\<forall>i\<in>set ids. map_of m i = find (\<lambda>v. resolver v = i) resources
                \<and> map_of m i \<noteq> None)"
      using r k by blast
  qed
  have B: "\<forall>pre i post. ids = pre @ i # post \<and> set pre \<subseteq> resolver ` set resources
          \<and> i \<notin> resolver ` set resources \<longrightarrow>
        filterArrayToMap resources ids resolver = Inl (NOT_FOUND_ERROR i)
        \<and> (\<forall>others. filterArrayToMap resources (pre @ i # others) resolver
               = Inl (NOT_FOUND_ERROR i))"
  proof (intro allI impI)
    fix pre i post
    assume h: "ids = pre @ i # post \<and> set pre \<subseteq> resolver ` set resources
          \<and> i \<notin> resolver ` set resources"
    then have p: "\<forall>j\<in>set pre. find (\<lambda>v. resolver v = j) resources \<noteq> None"
      and n: "find (\<lambda>v. resolver v = i) resources = None"
      by (auto simp: find_resolver_None)
    have "\<And>others. filterArrayToMap resources (pre @ i # others) resolver
               = Inl (NOT_FOUND_ERROR i)"
      unfolding filterArrayToMap_def
      by (rule filterArrayToMap_loop_missing[OF p n]) (simp add: Map_has_def)
    then show "filterArrayToMap resources ids resolver = Inl (NOT_FOUND_ERROR i)
        \<and> (\<forall>others. filterArrayToMap resources (pre @ i # others) resolver
               = Inl (NOT_FOUND_ERROR i))"
      using h by simp
  qed
  have C: "filterArrayToMap [\<lparr>id_field = 1\<rparr>, \<lparr>id_field = 2\<rparr>, \<lparr>id_field = 3\<rparr>] [1, 3] id_field
       = Inr [(1, \<lparr>id_field = 1\<rparr>), (3, \<lparr>id_field = 3\<rparr>)]"
    by (simp add: filterArrayToMap_def Map_set_def Map_has_def)
  have D: "filterArrayToMap [\<lparr>id_field = 1\<rparr>, \<lparr>id_field = 2\<rparr>, \<lparr>id_field = 3\<rparr>] [1, 4] id_field
       = Inl (NOT_FOUND_ERROR 4)"
    by (simp add: filterArrayToMap_def Map_set_def Map_has_def)
  show ?thesis using A B C D by blast
qed

theorem filterArrayToMap_resolution_witness:
  "set [2, 1 :: nat] \<subseteq> id_field ` set [\<lparr>id_field = 1\<rparr>, \<lparr>id_field = 2\<rparr>, \<lparr>id_field = 1\<rparr>]
   \<and> (\<exists>m. filterArrayToMap [\<lparr>id_field = 1\<rparr>, \<lparr>id_field = 2\<rparr>, \<lparr>id_field = 1\<rparr>] [2, 1] id_field = Inr m
          \<and> fst ` set m = set [2, 1])
   \<and> [2, 5, 1 :: nat] = [2] @ 5 # [1]
   \<and> set [2 :: nat] \<subseteq> id_field ` set [\<lparr>id_field = 1\<rparr>, \<lparr>id_field = 2\<rparr>, \<lparr>id_field = 1\<rparr>]
   \<and> 5 \<notin> id_field ` set [\<lparr>id_field = 1\<rparr>, \<lparr>id_field = 2\<rparr>, \<lparr>id_field = 1\<rparr>]
   \<and> filterArrayToMap [\<lparr>id_field = 1\<rparr>, \<lparr>id_field = 2\<rparr>, \<lparr>id_field = 1\<rparr>] [2, 5, 1] id_field
       = Inl (NOT_FOUND_ERROR 5)"
proof -
  let ?rs = "[\<lparr>id_field = 1\<rparr>, \<lparr>id_field = 2\<rparr>, \<lparr>id_field = 1\<rparr>]"
  have a: "set [2, 1 :: nat] \<subseteq> id_field ` set ?rs" by simp
  have b: "[2, 5, 1 :: nat] = [2] @ 5 # [1] \<and> set [2 :: nat] \<subseteq> id_field ` set ?rs
             \<and> 5 \<notin> id_field ` set ?rs" by simp
  from filterArrayToMap_resolution [of "[2, 1]" id_field ?rs] a
  have 1: "\<exists>m. filterArrayToMap ?rs [2, 1] id_field = Inr m \<and> fst ` set m = set [2, 1]"
    by blast
  from filterArrayToMap_resolution [of "[2, 5, 1]" id_field ?rs] b
  have 2: "filterArrayToMap ?rs [2, 5, 1] id_field = Inl (NOT_FOUND_ERROR 5)"
    by blast
  show ?thesis using a b 1 2 by blast
qed

section \<open>Resolving ids against a sequence\<close>

lemma indexOf_nonneg: "(0 \<le> indexOf ys x) = (x \<in> set ys)"
  by (induction ys) (auto simp: Let_def)

lemma Map_size_eq_iff:
  assumes "distinct (map fst m)" and "distinct ids" and "fst ` set m \<subseteq> set ids"
  shows "(Map_size m = length ids) = (set ids \<subseteq> fst ` set m)"
proof -
  have a: "Map_size m = card (fst ` set m)"
    using distinct_card[OF assms(1)] by (simp add: Map_size_def)
  have b: "length ids = card (set ids)" using distinct_card[OF assms(2)] by simp
  show ?thesis
  proof
    assume "Map_size m = length ids"
    then have "card (fst ` set m) = card (set ids)" using a b by simp
    then have "fst ` set m = set ids" using assms(3) by (simp add: card_subset_eq)
    then show "set ids \<subseteq> fst ` set m" by simp
  next
    assume "set ids \<subseteq> fst ` set m"
    then have "fst ` set m = set ids" using assms(3) by blast
    then show "Map_size m = length ids" using a b by simp
  qed
qed

lemma map_of_Map_set_cases:
  "map_of (Map_set m k v) k' = Some e \<Longrightarrow> map_of m k' = Some e \<or> (k' = k \<and> e = v)"
  by (auto simp: map_of_Map_set split: if_splits)

lemma filterIteratedToMap_scan_inv:
  assumes "distinct ids"
  shows "distinct (map fst m) \<Longrightarrow> fst ` set m \<subseteq> set ids \<Longrightarrow>
    filterIteratedToMap_scan resources ids resolver m = (m', rest) \<Longrightarrow>
    \<exists>pre. resources = pre @ rest
      \<and> (resources \<noteq> [] \<longrightarrow> pre \<noteq> [])
      \<and> distinct (map fst m')
      \<and> fst ` set m' = fst ` set m \<union> (resolver ` set pre \<inter> set ids)
      \<and> (\<forall>k e. map_of m' k = Some e \<longrightarrow> map_of m k = Some e \<or> (e \<in> set pre \<and> resolver e = k))
      \<and> (rest \<noteq> [] \<longrightarrow> set ids \<subseteq> fst ` set m')
      \<and> (\<forall>n. 0 < n \<and> n < length pre \<longrightarrow>
             \<not> set ids \<subseteq> fst ` set m \<union> (resolver ` set (take n pre) \<inter> set ids))"
proof (induction resources arbitrary: m)
  case Nil
  then show ?case by auto
next
  case (Cons e resources)
  define m1 where "m1 = (if indexOf ids (resolver e) \<ge> 0 then Map_set m (resolver e) e else m)"
  have d1: "distinct (map fst m1)" using Cons.prems(1) by (simp add: m1_def distinct_Map_set)
  have k1: "fst ` set m1 = fst ` set m \<union> (resolver ` set [e] \<inter> set ids)"
    by (auto simp: m1_def keys_Map_set indexOf_nonneg)
  have s1: "fst ` set m1 \<subseteq> set ids" using k1 Cons.prems(2) by blast
  have v1: "\<forall>k x. map_of m1 k = Some x \<longrightarrow> map_of m k = Some x \<or> (x = e \<and> resolver e = k)"
    by (auto simp: m1_def dest: map_of_Map_set_cases)
  have sz: "(Map_size m1 = length ids) = (set ids \<subseteq> fst ` set m1)"
    by (rule Map_size_eq_iff[OF d1 assms s1])
  have unf: "filterIteratedToMap_scan (e # resources) ids resolver m =
               (if Map_size m1 = length ids then (m1, resources)
                else filterIteratedToMap_scan resources ids resolver m1)"
    by (simp add: m1_def Let_def)
  show ?case
  proof (cases "Map_size m1 = length ids")
    case True
    then have r: "m' = m1" "rest = resources" using Cons.prems(3) unf by simp_all
    show ?thesis
    proof (intro exI[of _ "[e]"] conjI)
      show "e # resources = [e] @ rest" using r by simp
      show "e # resources \<noteq> [] \<longrightarrow> [e] \<noteq> []" by simp
      show "distinct (map fst m')" using d1 r by simp
      show "fst ` set m' = fst ` set m \<union> (resolver ` set [e] \<inter> set ids)"
        using k1 r by simp
      show "\<forall>k x. map_of m' k = Some x \<longrightarrow> map_of m k = Some x \<or> (x \<in> set [e] \<and> resolver x = k)"
      proof (intro allI impI)
        fix k x assume "map_of m' k = Some x"
        then have "map_of m1 k = Some x" using r by simp
        then have "map_of m k = Some x \<or> (x = e \<and> resolver e = k)" using v1 by blast
        then show "map_of m k = Some x \<or> (x \<in> set [e] \<and> resolver x = k)" by auto
      qed
      show "rest \<noteq> [] \<longrightarrow> set ids \<subseteq> fst ` set m'" using True sz r by simp
      show "\<forall>n. 0 < n \<and> n < length [e] \<longrightarrow>
             \<not> set ids \<subseteq> fst ` set m \<union> (resolver ` set (take n [e]) \<inter> set ids)"
        by simp
    qed
  next
    case False
    then have "filterIteratedToMap_scan resources ids resolver m1 = (m', rest)"
      using Cons.prems(3) unf by simp
    from Cons.IH[OF d1 s1 this] obtain pre where
      p: "resources = pre @ rest"
      and d: "distinct (map fst m')"
      and k: "fst ` set m' = fst ` set m1 \<union> (resolver ` set pre \<inter> set ids)"
      and v: "\<forall>k x. map_of m' k = Some x \<longrightarrow> map_of m1 k = Some x \<or> (x \<in> set pre \<and> resolver x = k)"
      and c: "rest \<noteq> [] \<longrightarrow> set ids \<subseteq> fst ` set m'"
      and n: "\<forall>n. 0 < n \<and> n < length pre \<longrightarrow>
             \<not> set ids \<subseteq> fst ` set m1 \<union> (resolver ` set (take n pre) \<inter> set ids)"
      by (elim exE conjE) (rule that)
    show ?thesis
    proof (intro exI[of _ "e # pre"] conjI)
      show "e # resources = (e # pre) @ rest" using p by simp
      show "e # resources \<noteq> [] \<longrightarrow> e # pre \<noteq> []" by simp
      show "distinct (map fst m')" by (rule d)
      show "fst ` set m' = fst ` set m \<union> (resolver ` set (e # pre) \<inter> set ids)"
        using k k1 by auto
      show "\<forall>k x. map_of m' k = Some x \<longrightarrow>
               map_of m k = Some x \<or> (x \<in> set (e # pre) \<and> resolver x = k)"
      proof (intro allI impI)
        fix k x assume "map_of m' k = Some x"
        then have "map_of m1 k = Some x \<or> (x \<in> set pre \<and> resolver x = k)" using v by blast
        then have "map_of m k = Some x \<or> (x = e \<and> resolver e = k) \<or> (x \<in> set pre \<and> resolver x = k)"
          using v1 by blast
        then show "map_of m k = Some x \<or> (x \<in> set (e # pre) \<and> resolver x = k)" by auto
      qed
      show "rest \<noteq> [] \<longrightarrow> set ids \<subseteq> fst ` set m'" by (rule c)
      show "\<forall>n. 0 < n \<and> n < length (e # pre) \<longrightarrow>
             \<not> set ids \<subseteq> fst ` set m \<union> (resolver ` set (take n (e # pre)) \<inter> set ids)"
      proof (intro allI impI)
        fix j assume j: "0 < j \<and> j < length (e # pre)"
        then obtain i where i: "j = Suc i" by (cases j) auto
        have t: "fst ` set m \<union> (resolver ` set (take j (e # pre)) \<inter> set ids)
                   = fst ` set m1 \<union> (resolver ` set (take i pre) \<inter> set ids)"
          using k1 i by auto
        show "\<not> set ids \<subseteq> fst ` set m \<union> (resolver ` set (take j (e # pre)) \<inter> set ids)"
        proof (cases "i = 0")
          case True
          then have "fst ` set m \<union> (resolver ` set (take j (e # pre)) \<inter> set ids) = fst ` set m1"
            using t by simp
          then show ?thesis using False sz by simp
        next
          case F: False
          then have "0 < i \<and> i < length pre" using j i by simp
          then have "\<not> set ids \<subseteq> fst ` set m1 \<union> (resolver ` set (take i pre) \<inter> set ids)"
            using n by blast
          then show ?thesis unfolding t .
        qed
      qed
    qed
  qed
qed


lemma Map_has_keys: "Map_has m k = (k \<in> fst ` set m)"
  by (simp add: Map_has_def map_of_eq_None_iff)

lemma filterIteratedToMap_missing_first:
  "set a \<subseteq> fst ` set m \<Longrightarrow> i \<notin> fst ` set m \<Longrightarrow>
   filterIteratedToMap_missing (a @ i # b) m = Some (NOT_FOUND_ERROR i)"
  by (induction a) (simp_all add: Map_has_keys)

lemma subset_Int_self: "(A \<subseteq> B \<inter> A) = (A \<subseteq> B)"
  by blast

text \<open>
  Claim C7, as the code has it. The claim as written fails when the requested ids
  contain a duplicate: the map can then never reach the size of the id list, and when
  no id is missing the function returns the map instead of throwing (see the
  counterexample). The function assumes ids without duplicates. For such ids:
  \<^verbatim>\<open>filterIteratedToMap\<close> consumes a prefix \<open>pre\<close> of the sequence, once and in order; the
  test for the early exit is made after each consumed element, so \<open>pre\<close> ends at the
  first element at which every requested id has been matched, and is the whole
  sequence when there is no such element; when every requested id has a match in the
  sequence the result is a map whose keys are exactly the requested ids, each bound
  to a consumed element with that id; otherwise the whole sequence is consumed and the
  call fails with NotFound carrying the first requested id, in request order, that
  has no match.
\<close>

theorem filterIteratedToMap_resolution:
  assumes "distinct ids"
    and "filterIteratedToMap resources ids resolver = (outcome, rest)"
  shows "\<exists>pre. resources = pre @ rest
      \<and> (resources \<noteq> [] \<longrightarrow> pre \<noteq> [])
      \<and> (\<forall>n. 0 < n \<and> n < length pre \<longrightarrow> \<not> set ids \<subseteq> resolver ` set (take n pre))
      \<and> (rest \<noteq> [] \<longrightarrow> set ids \<subseteq> resolver ` set pre)
      \<and> (set ids \<subseteq> resolver ` set resources \<longrightarrow>
           (\<exists>m. outcome = Inr m \<and> fst ` set m = set ids
              \<and> (\<forall>i\<in>set ids. \<exists>e\<in>set pre. map_of m i = Some e \<and> resolver e = i)))
      \<and> (\<forall>a i b. ids = a @ i # b \<and> set a \<subseteq> resolver ` set resources
              \<and> i \<notin> resolver ` set resources \<longrightarrow>
            outcome = Inl (NOT_FOUND_ERROR i) \<and> rest = [])"
proof -
  obtain m' rest' where sc: "filterIteratedToMap_scan resources ids resolver [] = (m', rest')"
    by (cases "filterIteratedToMap_scan resources ids resolver []") auto
  have rest: "rest' = rest"
    using assms(2) sc by (simp add: filterIteratedToMap_def)
  have out: "outcome = (if Map_size m' \<noteq> length ids
                        then (case filterIteratedToMap_missing ids m' of
                                Some err \<Rightarrow> Inl err | None \<Rightarrow> Inr m')
                        else Inr m')"
    using assms(2) sc by (simp add: filterIteratedToMap_def)
  from filterIteratedToMap_scan_inv[OF assms(1) _ _ sc]
  have "\<exists>pre. resources = pre @ rest'
      \<and> (resources \<noteq> [] \<longrightarrow> pre \<noteq> [])
      \<and> distinct (map fst m')
      \<and> fst ` set m' = resolver ` set pre \<inter> set ids
      \<and> (\<forall>k e. map_of m' k = Some e \<longrightarrow> e \<in> set pre \<and> resolver e = k)
      \<and> (rest' \<noteq> [] \<longrightarrow> set ids \<subseteq> fst ` set m')
      \<and> (\<forall>n. 0 < n \<and> n < length pre \<longrightarrow>
             \<not> set ids \<subseteq> resolver ` set (take n pre) \<inter> set ids)"
    by simp
  then obtain pre where
    p: "resources = pre @ rest'"
    and ne: "resources \<noteq> [] \<longrightarrow> pre \<noteq> []"
    and d: "distinct (map fst m')"
    and k: "fst ` set m' = resolver ` set pre \<inter> set ids"
    and v: "\<forall>k e. map_of m' k = Some e \<longrightarrow> e \<in> set pre \<and> resolver e = k"
    and c: "rest' \<noteq> [] \<longrightarrow> set ids \<subseteq> fst ` set m'"
    and n0: "\<forall>n. 0 < n \<and> n < length pre \<longrightarrow>
             \<not> set ids \<subseteq> resolver ` set (take n pre) \<inter> set ids"
    by (elim exE conjE) (rule that)
  have sub: "fst ` set m' \<subseteq> set ids" using k by blast
  have sz: "(Map_size m' = length ids) = (set ids \<subseteq> resolver ` set pre)"
    using Map_size_eq_iff[OF d assms(1) sub] by (simp add: k subset_Int_self)
  show ?thesis
  proof (intro exI[of _ pre] conjI)
    show "resources = pre @ rest" using p rest by simp
    show "resources \<noteq> [] \<longrightarrow> pre \<noteq> []" by (rule ne)
    show "\<forall>n. 0 < n \<and> n < length pre \<longrightarrow> \<not> set ids \<subseteq> resolver ` set (take n pre)"
      using n0 by (simp add: subset_Int_self)
    show "rest \<noteq> [] \<longrightarrow> set ids \<subseteq> resolver ` set pre"
      using c rest by (simp add: k subset_Int_self)
    show "set ids \<subseteq> resolver ` set resources \<longrightarrow>
           (\<exists>m. outcome = Inr m \<and> fst ` set m = set ids
              \<and> (\<forall>i\<in>set ids. \<exists>e\<in>set pre. map_of m i = Some e \<and> resolver e = i))"
    proof
      assume all: "set ids \<subseteq> resolver ` set resources"
      have cov: "set ids \<subseteq> resolver ` set pre"
      proof (cases "rest' = []")
        case True
        then show ?thesis using p all by simp
      next
        case False
        then show ?thesis using c by (simp add: k subset_Int_self)
      qed
      then have keys: "fst ` set m' = set ids" using k by blast
      have o: "outcome = Inr m'" using out sz cov by simp
      have b: "\<forall>i\<in>set ids. \<exists>e\<in>set pre. map_of m' i = Some e \<and> resolver e = i"
      proof
        fix i assume "i \<in> set ids"
        then have "i \<in> fst ` set m'" using keys by simp
        then obtain e where e: "map_of m' i = Some e"
          using map_of_eq_None_iff[of m' i] by auto
        then have "e \<in> set pre \<and> resolver e = i" using v by blast
        then show "\<exists>e\<in>set pre. map_of m' i = Some e \<and> resolver e = i" using e by blast
      qed
      show "\<exists>m. outcome = Inr m \<and> fst ` set m = set ids
              \<and> (\<forall>i\<in>set ids. \<exists>e\<in>set pre. map_of m i = Some e \<and> resolver e = i)"
        using o keys b by blast
    qed
    show "\<forall>a i b. ids = a @ i # b \<and> set a \<subseteq> resolver ` set resources
              \<and> i \<notin> resolver ` set resources \<longrightarrow>
            outcome = Inl (NOT_FOUND_ERROR i) \<and> rest = []"
    proof (intro allI impI)
      fix a i b
      assume h: "ids = a @ i # b \<and> set a \<subseteq> resolver ` set resources
              \<and> i \<notin> resolver ` set resources"
      have "set pre \<subseteq> set resources" using p by auto
      then have "i \<notin> resolver ` set pre" using h by blast
      moreover have "i \<in> set ids" using h by simp
      ultimately have ncov: "\<not> set ids \<subseteq> resolver ` set pre" by blast
      then have r: "rest' = []" using c by (auto simp: k)
      then have pr: "pre = resources" using p by simp
      have "set a \<subseteq> fst ` set m'" using h k pr by auto
      moreover have "i \<notin> fst ` set m'" using h k pr by auto
      ultimately have "filterIteratedToMap_missing ids m' = Some (NOT_FOUND_ERROR i)"
        using h filterIteratedToMap_missing_first[of a m' i b] by simp
      then have "outcome = Inl (NOT_FOUND_ERROR i)" using out sz ncov by simp
      then show "outcome = Inl (NOT_FOUND_ERROR i) \<and> rest = []" using r rest by simp
    qed
  qed
qed

theorem filterIteratedToMap_duplicate_ids_counterexample:
  "filterIteratedToMap [\<lparr>id_field = 1\<rparr>] [1, 1] id_field = (Inr [(1, \<lparr>id_field = 1\<rparr>)], [])
   \<and> Map_size [(1 :: nat, \<lparr>id_field = 1\<rparr>)] \<noteq> length [1 :: nat, 1]"
  by (simp add: filterIteratedToMap_def Map_size_def Map_set_def Map_has_def)

lemma filterIteratedToMap_example_found:
  "filterIteratedToMap [\<lparr>id_field = 3\<rparr>, \<lparr>id_field = 1\<rparr>, \<lparr>id_field = 2\<rparr>, \<lparr>id_field = 4\<rparr>]
     [1, 3] id_field
   = (Inr [(3, \<lparr>id_field = 3\<rparr>), (1, \<lparr>id_field = 1\<rparr>)], [\<lparr>id_field = 2\<rparr>, \<lparr>id_field = 4\<rparr>])"
  by (simp add: filterIteratedToMap_def Map_size_def Map_set_def Map_has_def)

lemma filterIteratedToMap_example_missing:
  "filterIteratedToMap [\<lparr>id_field = 3\<rparr>, \<lparr>id_field = 1\<rparr>] [1, 5, 3, 6] id_field
   = (Inl (NOT_FOUND_ERROR 5), [])"
  by (simp add: filterIteratedToMap_def Map_size_def Map_set_def Map_has_def)

theorem filterIteratedToMap_resolution_witness:
  "distinct [1, 3 :: nat]
   \<and> filterIteratedToMap [\<lparr>id_field = 3\<rparr>, \<lparr>id_field = 1\<rparr>, \<lparr>id_field = 2\<rparr>, \<lparr>id_field = 4\<rparr>]
        [1, 3] id_field
      = (Inr [(3, \<lparr>id_field = 3\<rparr>), (1, \<lparr>id_field = 1\<rparr>)], [\<lparr>id_field = 2\<rparr>, \<lparr>id_field = 4\<rparr>])
   \<and> (\<exists>pre. [\<lparr>id_field = 3\<rparr>, \<lparr>id_field = 1\<rparr>, \<lparr>id_field = 2\<rparr>, \<lparr>id_field = 4\<rparr>]
               = pre @ [\<lparr>id_field = 2\<rparr>, \<lparr>id_field = 4\<rparr>]
          \<and> set [1, 3] \<subseteq> id_field ` set pre)"
proof -
  have d: "distinct [1, 3 :: nat]" by simp
  from filterIteratedToMap_resolution [OF d filterIteratedToMap_example_found]
  obtain pre where
    a: "[\<lparr>id_field = 3\<rparr>, \<lparr>id_field = 1\<rparr>, \<lparr>id_field = 2\<rparr>, \<lparr>id_field = 4\<rparr>]
               = pre @ [\<lparr>id_field = 2\<rparr>, \<lparr>id_field = 4\<rparr>]"
    and b: "[\<lparr>id_field = 2\<rparr>, \<lparr>id_field = 4\<rparr>] \<noteq> [] \<longrightarrow> set [1, 3] \<subseteq> id_field ` set pre"
    by (elim exE conjE) (rule that)
  have "\<exists>pre. [\<lparr>id_field = 3\<rparr>, \<lparr>id_field = 1\<rparr>, \<lparr>id_field = 2\<rparr>, \<lparr>id_field = 4\<rparr>]
               = pre @ [\<lparr>id_field = 2\<rparr>, \<lparr>id_field = 4\<rparr>]
          \<and> set [1, 3] \<subseteq> id_field ` set pre"
  proof (intro exI[of _ pre] conjI)
    show "[\<lparr>id_field = 3\<rparr>, \<lparr>id_field = 1\<rparr>, \<lparr>id_field = 2\<rparr>, \<lparr>id_field = 4\<rparr>]
               = pre @ [\<lparr>id_field = 2\<rparr>, \<lparr>id_field = 4\<rparr>]" by (rule a)
    show "set [1, 3] \<subseteq> id_field ` set pre" using b by simp
  qed
  then show ?thesis
    by (intro conjI) (rule d, rule filterIteratedToMap_example_found)
qed

section \<open>The max-id streamer\<close>

text \<open>
  Claim C3. With a page loader that answers \<open>[{id:10},{id:9}]\<close>, \<open>[{id:8}]\<close> and \<open>[]\<close> in
  turn, the resolver \<^verbatim>\<open>e => e.id\<close> and no full-page size, the max-id streamer calls the
  loader with an undefined cursor, then with \<open>9\<close>, then with \<open>8\<close>; it yields the three
  elements in page order and returns after the empty third page, with no further call
  however far the consumer pulls.
\<close>

theorem getMaxIDIterator_cursor_advancement:
  "getMaxIDIterator (3 + n) scripted_loader id_field None
     [[\<lparr>id_field = 10\<rparr>, \<lparr>id_field = 9\<rparr>], [\<lparr>id_field = 8\<rparr>], []]
   = \<lparr>fetches = [(None, [\<lparr>id_field = 10\<rparr>, \<lparr>id_field = 9\<rparr>]),
                 (Some 9, [\<lparr>id_field = 8\<rparr>]),
                 (Some 8, [])],
      yielded = [\<lparr>id_field = 10\<rparr>, \<lparr>id_field = 9\<rparr>, \<lparr>id_field = 8\<rparr>],
      finished = True\<rparr>"
  by (simp add: getMaxIDIterator_def numeral_3_eq_3 short_page_def after_page_def)

lemma getMaxIDIterator_loop_stops:
  "(\<forall>k<length (fetches (getMaxIDIterator_loop fuel pageLoader idResolver maxPageSize maxID s)).
       stops_on maxPageSize
         (snd (fetches (getMaxIDIterator_loop fuel pageLoader idResolver maxPageSize maxID s) ! k))
       = (finished (getMaxIDIterator_loop fuel pageLoader idResolver maxPageSize maxID s)
          \<and> Suc k = length (fetches (getMaxIDIterator_loop fuel pageLoader idResolver maxPageSize maxID s))))
   \<and> (finished (getMaxIDIterator_loop fuel pageLoader idResolver maxPageSize maxID s)
        \<longrightarrow> fetches (getMaxIDIterator_loop fuel pageLoader idResolver maxPageSize maxID s) \<noteq> [])
   \<and> (\<not> finished (getMaxIDIterator_loop fuel pageLoader idResolver maxPageSize maxID s)
        \<longrightarrow> length (fetches (getMaxIDIterator_loop fuel pageLoader idResolver maxPageSize maxID s)) = fuel)"
proof (induction fuel arbitrary: maxID s)
  case 0
  show ?case by simp
next
  case (Suc fuel)
  obtain pageResults s' where l: "pageLoader maxID s = (pageResults, s')"
    by (cases "pageLoader maxID s") auto
  let ?next = "getMaxIDIterator_loop fuel pageLoader idResolver maxPageSize
                 (Some (idResolver (pageResults ! (length pageResults - 1)))) s'"
  show ?case
  proof (cases "stops_on maxPageSize pageResults")
    case True
    then show ?thesis
      by (auto simp: l stops_on_def)
  next
    case False
    then have unf: "getMaxIDIterator_loop (Suc fuel) pageLoader idResolver maxPageSize maxID s
                      = after_page (maxID, pageResults) pageResults ?next"
      by (simp add: l stops_on_def)
    have ih: "(\<forall>k<length (fetches ?next).
                 stops_on maxPageSize (snd (fetches ?next ! k))
                   = (finished ?next \<and> Suc k = length (fetches ?next)))
              \<and> (finished ?next \<longrightarrow> fetches ?next \<noteq> [])
              \<and> (\<not> finished ?next \<longrightarrow> length (fetches ?next) = fuel)"
      by (rule Suc.IH)
    show ?thesis
      unfolding unf
    proof (intro conjI allI impI)
      fix k assume k: "k < length (fetches (after_page (maxID, pageResults) pageResults ?next))"
      show "stops_on maxPageSize (snd (fetches (after_page (maxID, pageResults) pageResults ?next) ! k))
              = (finished (after_page (maxID, pageResults) pageResults ?next)
                 \<and> Suc k = length (fetches (after_page (maxID, pageResults) pageResults ?next)))"
      proof (cases k)
        case 0
        then show ?thesis using False ih by (auto simp: after_page_def)
      next
        case (Suc j)
        then show ?thesis using k ih by (simp add: after_page_def)
      qed
    next
      show "fetches (after_page (maxID, pageResults) pageResults ?next) \<noteq> []"
        by (simp add: after_page_def)
    next
      assume "\<not> finished (after_page (maxID, pageResults) pageResults ?next)"
      then show "length (fetches (after_page (maxID, pageResults) pageResults ?next)) = Suc fuel"
        using ih by (simp add: after_page_def)
    qed
  qed
qed

section \<open>The page-number streamer\<close>

lemma getPageBasedIterator_loop_closed:
  "\<not> below_max page maxPages \<Longrightarrow>
   getPageBasedIterator_loop fuel pageLoader maxPageSize page maxPages s
     = \<lparr>fetches = [], yielded = [], finished = True\<rparr>"
  by (cases fuel) simp_all

lemma getPageBasedIterator_loop_stop:
  "below_max page maxPages \<Longrightarrow> pageLoader page s = (pageResults, s') \<Longrightarrow>
   stops_on maxPageSize (page_elements pageResults) \<Longrightarrow>
   fetches (getPageBasedIterator_loop (Suc fuel) pageLoader maxPageSize page maxPages s)
     = [(page, pageResults)]
   \<and> finished (getPageBasedIterator_loop (Suc fuel) pageLoader maxPageSize page maxPages s)"
  by (auto simp: stops_on_def Let_def)

lemma getPageBasedIterator_loop_continue:
  "below_max page maxPages \<Longrightarrow> pageLoader page s = (pageResults, s') \<Longrightarrow>
   \<not> stops_on maxPageSize (page_elements pageResults) \<Longrightarrow>
   getPageBasedIterator_loop (Suc fuel) pageLoader maxPageSize page maxPages s
     = after_page (page, pageResults) (page_elements pageResults)
         (getPageBasedIterator_loop fuel pageLoader maxPageSize (page + 1)
            (capture maxPages [(page, pageResults)]) s')"
  by (simp add: stops_on_def Let_def)

lemma getPageBasedIterator_loop_empty:
  "fetches (getPageBasedIterator_loop fuel pageLoader maxPageSize page maxPages s) = [] \<Longrightarrow>
   finished (getPageBasedIterator_loop fuel pageLoader maxPageSize page maxPages s)
     = (\<not> below_max page maxPages)"
proof (cases fuel)
  case 0
  then show ?thesis by simp
next
  case (Suc n)
  assume e: "fetches (getPageBasedIterator_loop fuel pageLoader maxPageSize page maxPages s) = []"
  show ?thesis
  proof (cases "below_max page maxPages")
    case False
    then show ?thesis by (simp add: getPageBasedIterator_loop_closed)
  next
    case True
    obtain pageResults s' where l: "pageLoader page s = (pageResults, s')"
      by (cases "pageLoader page s") auto
    have "fetches (getPageBasedIterator_loop (Suc n) pageLoader maxPageSize page maxPages s) \<noteq> []"
    proof (cases "stops_on maxPageSize (page_elements pageResults)")
      case True
      then show ?thesis using getPageBasedIterator_loop_stop[where pageLoader=pageLoader and s=s, OF \<open>below_max page maxPages\<close> l True]
        by simp
    next
      case False
      then show ?thesis
        using getPageBasedIterator_loop_continue[where pageLoader=pageLoader and s=s, OF \<open>below_max page maxPages\<close> l False]
        by (simp add: after_page_def)
    qed
    then show ?thesis using e Suc by simp
  qed
qed

text \<open>
  The loop from page number \<open>page\<close> with the hint \<open>maxPages\<close>: the \<open>k\<close>-th fetch asks for
  page \<open>page + k\<close>, below the hint captured before it; and a fetch is the last one of a
  finished run exactly when its page is empty or short, or the next page number is not
  below the hint captured so far.
\<close>

lemma getPageBasedIterator_loop_trace:
  "(\<forall>k<length (fetches (getPageBasedIterator_loop fuel pageLoader maxPageSize page maxPages s)).
       fst (fetches (getPageBasedIterator_loop fuel pageLoader maxPageSize page maxPages s) ! k)
         = page + k
       \<and> below_max (page + k)
           (capture maxPages
              (take k (fetches (getPageBasedIterator_loop fuel pageLoader maxPageSize page maxPages s))))
       \<and> ((stops_on maxPageSize (page_elements
              (snd (fetches (getPageBasedIterator_loop fuel pageLoader maxPageSize page maxPages s) ! k)))
            \<or> \<not> below_max (page + k + 1)
                 (capture maxPages
                    (take (Suc k)
                       (fetches (getPageBasedIterator_loop fuel pageLoader maxPageSize page maxPages s)))))
          = (finished (getPageBasedIterator_loop fuel pageLoader maxPageSize page maxPages s)
             \<and> Suc k = length (fetches
                   (getPageBasedIterator_loop fuel pageLoader maxPageSize page maxPages s)))))
   \<and> (\<not> finished (getPageBasedIterator_loop fuel pageLoader maxPageSize page maxPages s)
        \<longrightarrow> length (fetches (getPageBasedIterator_loop fuel pageLoader maxPageSize page maxPages s))
              = fuel)"
proof (induction fuel arbitrary: page maxPages s)
  case 0
  show ?case by simp
next
  case (Suc fuel)
  show ?case
  proof (cases "below_max page maxPages")
    case False
    then show ?thesis by (simp add: getPageBasedIterator_loop_closed)
  next
    case bm: True
    obtain pageResults s' where l: "pageLoader page s = (pageResults, s')"
      by (cases "pageLoader page s") auto
    show ?thesis
    proof (cases "stops_on maxPageSize (page_elements pageResults)")
      case True
      have f: "fetches (getPageBasedIterator_loop (Suc fuel) pageLoader maxPageSize page maxPages s)
                 = [(page, pageResults)]"
        and d: "finished (getPageBasedIterator_loop (Suc fuel) pageLoader maxPageSize page maxPages s)"
        using getPageBasedIterator_loop_stop[where pageLoader=pageLoader and s=s, OF bm l True] by simp_all
      show ?thesis
        unfolding f using d True bm by simp
    next
      case False
      define mp' where "mp' = capture maxPages [(page, pageResults)]"
      define r' where "r' = getPageBasedIterator_loop fuel pageLoader maxPageSize (page + 1) mp' s'"
      have unf: "getPageBasedIterator_loop (Suc fuel) pageLoader maxPageSize page maxPages s
                   = after_page (page, pageResults) (page_elements pageResults) r'"
        unfolding r'_def mp'_def by (rule getPageBasedIterator_loop_continue[where pageLoader=pageLoader and s=s, OF bm l False])
      have fs: "fetches (after_page (page, pageResults) (page_elements pageResults) r')
                  = (page, pageResults) # fetches r'"
        and fin: "finished (after_page (page, pageResults) (page_elements pageResults) r')
                  = finished r'"
        by (simp_all add: after_page_def)
      have ih: "(\<forall>k<length (fetches r').
                   fst (fetches r' ! k) = page + 1 + k
                   \<and> below_max (page + 1 + k) (capture mp' (take k (fetches r')))
                   \<and> ((stops_on maxPageSize (page_elements (snd (fetches r' ! k)))
                        \<or> \<not> below_max (page + 1 + k + 1) (capture mp' (take (Suc k) (fetches r'))))
                      = (finished r' \<and> Suc k = length (fetches r'))))
                \<and> (\<not> finished r' \<longrightarrow> length (fetches r') = fuel)"
        unfolding r'_def by (rule Suc.IH)
      have emp: "fetches r' = [] \<Longrightarrow> finished r' = (\<not> below_max (page + 1) mp')"
        unfolding r'_def by (rule getPageBasedIterator_loop_empty)
      have cl: "\<not> below_max (page + 1) mp' \<Longrightarrow> fetches r' = [] \<and> finished r'"
        unfolding r'_def by (simp add: getPageBasedIterator_loop_closed)
      have cap: "\<And>xs. capture maxPages ((page, pageResults) # xs) = capture mp' xs"
        by (simp add: mp'_def)
      show ?thesis
        unfolding unf fs fin
      proof (intro conjI allI impI)
        fix k assume k: "k < length ((page, pageResults) # fetches r')"
        show "fst (((page, pageResults) # fetches r') ! k) = page + k"
          using k ih by (cases k) simp_all
        show "below_max (page + k) (capture maxPages (take k ((page, pageResults) # fetches r')))"
        proof (cases k)
          case 0
          then show ?thesis using bm by simp
        next
          case (Suc j)
          then have "below_max (page + 1 + j) (capture mp' (take j (fetches r')))"
            using k ih by simp
          then show ?thesis using Suc by (simp add: cap del: capture.simps(2))
        qed
        show "(stops_on maxPageSize (page_elements (snd (((page, pageResults) # fetches r') ! k)))
               \<or> \<not> below_max (page + k + 1)
                    (capture maxPages (take (Suc k) ((page, pageResults) # fetches r'))))
              = (finished r' \<and> Suc k = length ((page, pageResults) # fetches r'))"
        proof (cases k)
          case 0
          have "(\<not> below_max (page + 1) mp') = (finished r' \<and> fetches r' = [])"
            using emp cl by blast
          then show ?thesis using 0 False by (simp add: cap del: capture.simps(2))
        next
          case (Suc j)
          then have "(stops_on maxPageSize (page_elements (snd (fetches r' ! j)))
                        \<or> \<not> below_max (page + 1 + j + 1) (capture mp' (take (Suc j) (fetches r'))))
                      = (finished r' \<and> Suc j = length (fetches r'))"
            using k ih by simp
          then show ?thesis using Suc by (simp add: cap del: capture.simps(2))
        qed
      next
        assume "\<not> finished r'"
        then show "length ((page, pageResults) # fetches r') = Suc fuel" using ih by simp
      qed
    qed
  qed
qed

section \<open>When a streamer stops\<close>

text \<open>
  Claim C2, as the code has it. The claim as written fails for the page-number
  streamer, whose loop also ends when a \<^verbatim>\<open>maxPages\<close> hint has been captured and the next
  page number is not below it (see the counterexample). In a run \<open>r\<close> of the max-id
  streamer, a fetched page is empty or, the full-page size being known, short exactly
  when it is the last fetch of a finished run; a finished run has made at least one
  fetch, and an unfinished run has used all its fuel. In a run \<open>r'\<close> of the page-number
  streamer the \<open>k\<close>-th fetch asks for page \<open>k + 1\<close>, and it is the last fetch of a finished
  run exactly when its page is empty or short, or the next page number \<open>k + 2\<close> is not
  below the hint captured so far.
\<close>

theorem pagination_stops:
  assumes "r = getMaxIDIterator fuel pageLoader idResolver maxPageSize s"
    and "r' = getPageBasedIterator fuel' pageLoader' maxPageSize' s'"
  shows "(\<forall>k<length (fetches r).
            stops_on maxPageSize (snd (fetches r ! k))
              = (finished r \<and> Suc k = length (fetches r)))
       \<and> (finished r \<longrightarrow> fetches r \<noteq> [])
       \<and> (\<not> finished r \<longrightarrow> length (fetches r) = fuel)
       \<and> (\<forall>k<length (fetches r').
            fst (fetches r' ! k) = k + 1
            \<and> ((stops_on maxPageSize' (page_elements (snd (fetches r' ! k)))
                  \<or> \<not> below_max (k + 2) (capture None (take (Suc k) (fetches r'))))
                 = (finished r' \<and> Suc k = length (fetches r'))))
       \<and> (finished r' \<longrightarrow> fetches r' \<noteq> [])
       \<and> (\<not> finished r' \<longrightarrow> length (fetches r') = fuel')"
proof -
  have m: "(\<forall>k<length (fetches r).
            stops_on maxPageSize (snd (fetches r ! k))
              = (finished r \<and> Suc k = length (fetches r)))
       \<and> (finished r \<longrightarrow> fetches r \<noteq> [])
       \<and> (\<not> finished r \<longrightarrow> length (fetches r) = fuel)"
    unfolding assms(1) getMaxIDIterator_def by (rule getMaxIDIterator_loop_stops)
  have t: "(\<forall>k<length (fetches r').
       fst (fetches r' ! k) = 1 + k
       \<and> below_max (1 + k) (capture None (take k (fetches r')))
       \<and> ((stops_on maxPageSize' (page_elements (snd (fetches r' ! k)))
            \<or> \<not> below_max (1 + k + 1) (capture None (take (Suc k) (fetches r'))))
          = (finished r' \<and> Suc k = length (fetches r'))))
   \<and> (\<not> finished r' \<longrightarrow> length (fetches r') = fuel')"
    unfolding assms(2) getPageBasedIterator_def by (rule getPageBasedIterator_loop_trace)
  have e: "fetches r' = [] \<Longrightarrow> finished r' = (\<not> below_max 1 None)"
    unfolding assms(2) getPageBasedIterator_def by (rule getPageBasedIterator_loop_empty)
  have p1: "\<forall>k<length (fetches r').
            fst (fetches r' ! k) = k + 1
            \<and> ((stops_on maxPageSize' (page_elements (snd (fetches r' ! k)))
                  \<or> \<not> below_max (k + 2) (capture None (take (Suc k) (fetches r'))))
                 = (finished r' \<and> Suc k = length (fetches r')))"
  proof (intro allI impI)
    fix k assume "k < length (fetches r')"
    then have "fst (fetches r' ! k) = 1 + k
       \<and> ((stops_on maxPageSize' (page_elements (snd (fetches r' ! k)))
            \<or> \<not> below_max (1 + k + 1) (capture None (take (Suc k) (fetches r'))))
          = (finished r' \<and> Suc k = length (fetches r')))"
      using t by blast
    moreover have "1 + k + 1 = k + 2" by simp
    ultimately show "fst (fetches r' ! k) = k + 1
            \<and> ((stops_on maxPageSize' (page_elements (snd (fetches r' ! k)))
                  \<or> \<not> below_max (k + 2) (capture None (take (Suc k) (fetches r'))))
                 = (finished r' \<and> Suc k = length (fetches r')))"
      by (simp only: add.commute[of 1 k])
  qed
  have p2: "finished r' \<longrightarrow> fetches r' \<noteq> []"
    using e by (auto simp: below_max_def)
  have p3: "\<not> finished r' \<longrightarrow> length (fetches r') = fuel'" using t by blast
  show ?thesis using m p1 p2 p3 by blast
qed

theorem pagination_stops_counterexample:
  "finished (getPageBasedIterator 5 (hinting_loader 2) None ())
   \<and> fetches (getPageBasedIterator 5 (hinting_loader 2) None ()) = [(1, Paged [1] (Some 2))]
   \<and> \<not> stops_on None [1 :: nat]"
  by (simp add: getPageBasedIterator_def hinting_loader_def below_max_def short_page_def
        stops_on_def after_page_def numeral_eq_Suc Let_def)

lemma maxid_example_run:
  "getMaxIDIterator 3 scripted_loader id_field None
     [[\<lparr>id_field = 10\<rparr>, \<lparr>id_field = 9\<rparr>], [\<lparr>id_field = 8\<rparr>], []]
   = \<lparr>fetches = [(None, [\<lparr>id_field = 10\<rparr>, \<lparr>id_field = 9\<rparr>]),
                 (Some 9, [\<lparr>id_field = 8\<rparr>]),
                 (Some 8, [])],
      yielded = [\<lparr>id_field = 10\<rparr>, \<lparr>id_field = 9\<rparr>, \<lparr>id_field = 8\<rparr>],
      finished = True\<rparr>"
  by (simp add: getMaxIDIterator_def numeral_3_eq_3 short_page_def after_page_def)

lemma paged_example_run:
  "getPageBasedIterator 5 (hinting_loader 3) None ()
   = \<lparr>fetches = [(1, Paged [1] (Some 3)), (2, Paged [2] (Some 3))],
      yielded = [1, 2], finished = True\<rparr>"
  by (simp add: getPageBasedIterator_def hinting_loader_def below_max_def short_page_def
        after_page_def numeral_eq_Suc Let_def)

theorem pagination_stops_witness:
  "(2 :: nat) < length (fetches (getMaxIDIterator 3 scripted_loader id_field None
        [[\<lparr>id_field = 10\<rparr>, \<lparr>id_field = 9\<rparr>], [\<lparr>id_field = 8\<rparr>], []]))
   \<and> stops_on None (snd (fetches (getMaxIDIterator 3 scripted_loader id_field None
        [[\<lparr>id_field = 10\<rparr>, \<lparr>id_field = 9\<rparr>], [\<lparr>id_field = 8\<rparr>], []]) ! 2))
   \<and> finished (getMaxIDIterator 3 scripted_loader id_field None
        [[\<lparr>id_field = 10\<rparr>, \<lparr>id_field = 9\<rparr>], [\<lparr>id_field = 8\<rparr>], []])
   \<and> (1 :: nat) < length (fetches (getPageBasedIterator 5 (hinting_loader 3) None ()))
   \<and> \<not> below_max (1 + 2)
          (capture None (take (Suc 1) (fetches (getPageBasedIterator 5 (hinting_loader 3) None ()))))
   \<and> finished (getPageBasedIterator 5 (hinting_loader 3) None ())"
  using pagination_stops [OF refl refl, of 3 scripted_loader id_field None
      "[[\<lparr>id_field = 10\<rparr>, \<lparr>id_field = 9\<rparr>], [\<lparr>id_field = 8\<rparr>], []]"
      5 "hinting_loader 3" None "()"]
  by (simp add: maxid_example_run paged_example_run stops_on_def below_max_def)

section \<open>The page bound of the page-number streamer\<close>

lemma capture_Some: "capture (Some M) fs = Some M"
  by (induction fs) simp_all

lemma capture_first_hint:
  "j < length fs \<Longrightarrow> page_hint (snd (fs ! j)) = Some M \<Longrightarrow>
   \<forall>i<j. page_hint (snd (fs ! i)) = None \<Longrightarrow> capture None fs = Some M"
proof (induction fs arbitrary: j)
  case Nil
  then show ?case by simp
next
  case (Cons f fs)
  show ?case
  proof (cases j)
    case 0
    then show ?thesis using Cons.prems(2) by (simp add: capture_Some)
  next
    case (Suc i)
    have h: "page_hint (snd f) = None" using Cons.prems(3) Suc by auto
    have "\<forall>l<i. page_hint (snd (fs ! l)) = None"
    proof (intro allI impI)
      fix l assume "l < i"
      then have "Suc l < j" using Suc by simp
      then have "page_hint (snd ((f # fs) ! Suc l)) = None" using Cons.prems(3) by blast
      then show "page_hint (snd (fs ! l)) = None" by simp
    qed
    then have "capture None fs = Some M"
      using Cons.IH[of i] Cons.prems(1,2) Suc by simp
    then show ?thesis using h by simp
  qed
qed

text \<open>
  Claim C9. In a run of the page-number streamer, let the \<open>j\<close>-th fetch be the first
  whose answer carries a \<^verbatim>\<open>maxPages\<close> hint, \<open>M\<close>. Every later fetch asks for a page number
  strictly below \<open>M\<close>: once the hint is known the loader is never called with a page
  number \<open>M\<close> or greater, whatever the pages before held.
\<close>

theorem getPageBasedIterator_page_bound:
  assumes "r = getPageBasedIterator fuel pageLoader maxPageSize s"
    and "j < k" and "k < length (fetches r)"
    and "page_hint (snd (fetches r ! j)) = Some M"
    and "\<forall>i<j. page_hint (snd (fetches r ! i)) = None"
  shows "fst (fetches r ! k) < M \<and> fst (fetches r ! k) = k + 1"
proof -
  have t: "(\<forall>k<length (fetches r).
       fst (fetches r ! k) = 1 + k
       \<and> below_max (1 + k) (capture None (take k (fetches r)))
       \<and> ((stops_on maxPageSize (page_elements (snd (fetches r ! k)))
            \<or> \<not> below_max (1 + k + 1) (capture None (take (Suc k) (fetches r))))
          = (finished r \<and> Suc k = length (fetches r))))
   \<and> (\<not> finished r \<longrightarrow> length (fetches r) = fuel)"
    unfolding assms(1) getPageBasedIterator_def by (rule getPageBasedIterator_loop_trace)
  have n: "fst (fetches r ! k) = 1 + k"
    and b: "below_max (1 + k) (capture None (take k (fetches r)))"
    using t assms(3) by blast+
  have "capture None (take k (fetches r)) = Some M"
  proof (rule capture_first_hint[of j])
    show "j < length (take k (fetches r))" using assms(2,3) by simp
    show "page_hint (snd (take k (fetches r) ! j)) = Some M" using assms(2,4) by simp
    show "\<forall>i<j. page_hint (snd (take k (fetches r) ! i)) = None" using assms(2,5) by simp
  qed
  then have "1 + k < M" using b by (simp add: below_max_def)
  then show ?thesis using n by simp
qed

theorem getPageBasedIterator_page_bound_witness:
  "(0 :: nat) < 1
   \<and> 1 < length (fetches (getPageBasedIterator 5 (hinting_loader 3) None ()))
   \<and> page_hint (snd (fetches (getPageBasedIterator 5 (hinting_loader 3) None ()) ! 0)) = Some 3
   \<and> fst (fetches (getPageBasedIterator 5 (hinting_loader 3) None ()) ! 1) < 3
   \<and> length (fetches (getPageBasedIterator 5 (hinting_loader 3) None ())) = 2"
proof -
  have a: "(0 :: nat) < 1" by simp
  have b: "1 < length (fetches (getPageBasedIterator 5 (hinting_loader 3) None ()))"
    by (simp add: paged_example_run)
  have c: "page_hint (snd (fetches (getPageBasedIterator 5 (hinting_loader 3) None ()) ! 0)) = Some 3"
    by (simp add: paged_example_run)
  have d: "\<forall>i<0. page_hint (snd (fetches (getPageBasedIterator 5 (hinting_loader 3) None ()) ! i)) = None"
    by simp
  have e: "length (fetches (getPageBasedIterator 5 (hinting_loader 3) None ())) = 2"
    by (simp add: paged_example_run)
  from getPageBasedIterator_page_bound [OF refl a b c d]
  have "fst (fetches (getPageBasedIterator 5 (hinting_loader 3) None ()) ! 1) < 3" by simp
  then show ?thesis using a b c e by blast
qed

end
